theory Spec2Isabelle
  imports Main "HOL-Library.Word" "HOL-Library.Signed_Division"
begin

section \<open>The dump engine of dmp.c: \<open>dump_file\<close>\<close>

text \<open>
  The C function \<open>dump_file(fpi, fpo)\<close> reads the input one byte at a time with
  \<open>fgetc\<close>, writes text to \<open>fpo\<close> with \<open>fprintf\<close> and returns the byte count, negated
  when the dump stopped at the byte limit. Its options are process-wide \<open>int\<close> variables;
  here they are the fields of a record, with the names of the C variables. The input is
  the list of bytes that \<open>fgetc\<close> would deliver, the output is the text written so far,
  and the part of the input that \<open>fgetc\<close> never delivered is returned with the result.

  The options and the counters \<open>adr\<close>, \<open>cnt\<close> and \<open>ix\<close> are C \<open>int\<close>s, 32 bits wide.
  An option holds a value of that range. A counter is incremented with \<open>++\<close>, and the
  increment of a counter that holds \<open>INT_MAX\<close> is a signed overflow, which C leaves
  undefined: in the model it is a fault. The line buffer \<open>char asc[64]\<close> is modelled with
  its size: a store outside it, and a \<open>%s\<close> read of it that meets no terminating NUL, are
  faults too. A run that meets a fault has no result.
\<close>

type_synonym byte = "8 word"

abbreviation NUL :: char where "NUL \<equiv> CHR 0x00"
abbreviation NL :: char where "NL \<equiv> CHR 0x0A"
abbreviation SP :: char where "SP \<equiv> CHR 0x20"

record config =
  Ascii :: int
  LoCase :: int
  WordLen :: int
  PerLine :: int
  AddrNum :: int
  HalfGap :: int
  EndAddr :: int
  AscWide :: int
  HexDump :: int
  Start :: int
  Count :: int

datatype fault = AscOverrun | AscUnterminated | IntOverflow

record dstate =
  adr :: int
  cnt :: int
  ix :: int
  asc :: "char list"
  out :: string

definition EOF :: int where
  "EOF = - 1"

definition INT_MAX :: int where
  "INT_MAX = 2147483647"

text \<open>\<open>x++\<close> for an \<open>int\<close> variable: the new value, or the overflow.\<close>

definition incr :: "int \<Rightarrow> fault + int" where
  "incr x = (if x < INT_MAX then Inr (x + 1) else Inl IntOverflow)"

subsection \<open>printf conversions\<close>

definition hexdigit :: "bool \<Rightarrow> nat \<Rightarrow> char" where
  "hexdigit lo d = (if lo then ''0123456789abcdef'' else ''0123456789ABCDEF'') ! (d mod 16)"

text \<open>The \<open>k\<close> low hexadecimal digits of \<open>v\<close>, most significant first.\<close>

fun hexn :: "bool \<Rightarrow> nat \<Rightarrow> nat \<Rightarrow> string" where
  "hexn lo 0 v = []"
| "hexn lo (Suc k) v = hexn lo k (v div 16) @ [hexdigit lo v]"

text \<open>The number of hexadecimal digits printf needs for \<open>u\<close> (one for zero).\<close>

function ndigits :: "nat \<Rightarrow> nat" where
  "ndigits u = (if u < 16 then 1 else Suc (ndigits (u div 16)))"
  by pat_completeness auto
termination
  by (relation "measure id") auto

declare ndigits.simps [simp del]

text \<open>
  \<open>%0wx\<close> and \<open>%0wX\<close> applied to an \<open>int\<close>: the argument is read as a 32-bit unsigned
  value and printed with at least \<open>w\<close> digits, zero-padded on the left.
\<close>

definition printf_hex :: "bool \<Rightarrow> nat \<Rightarrow> int \<Rightarrow> string" where
  "printf_hex lo w v = hexn lo (max w (ndigits (nat (v mod 2 ^ 32)))) (nat (v mod 2 ^ 32))"

subsection \<open>The line buffer \<open>asc\<close> and the separator \<open>sp\<close>\<close>

text \<open>\<open>memset( asc, 0x00, sizeof(asc) )\<close> with \<open>char asc[64]\<close>.\<close>

definition asc_clear :: "char list" where
  "asc_clear = replicate 64 NUL"

text \<open>\<open>asc[i] = c\<close>.\<close>

definition asc_store :: "char list \<Rightarrow> int \<Rightarrow> char \<Rightarrow> fault + char list" where
  "asc_store a i c = (if 0 \<le> i \<and> i < 64 then Inr (a[nat i := c]) else Inl AscOverrun)"

text \<open>What \<open>%s\<close> prints for a character array: the characters before the first NUL.\<close>

definition c_str :: "char list \<Rightarrow> fault + string" where
  "c_str a = (if NUL \<in> set a then Inr (takeWhile (\<lambda>c. c \<noteq> NUL) a) else Inl AscUnterminated)"

text \<open>The character stored for the byte \<open>ch\<close>; \<open>' '\<close> is 32 and \<open>'~'\<close> is 126.\<close>

definition asc_char :: "int \<Rightarrow> char" where
  "asc_char ch =
     (if ch = 0 then CHR ''_''
      else if ch < 32 then CHR ''.''
      else if ch > 126 then CHR ''.''
      else char_of ch)"

text \<open>
  The separator before the gutter: \<open>char sp[4]\<close> is cleared, and when hex digits are
  shown \<open>strcpy( sp, "  " )\<close> is cut back by \<open>sp[1] = '\0'\<close> and \<open>sp[0] = '\0'\<close>.
\<close>

definition gutter_sp :: "config \<Rightarrow> string" where
  "gutter_sp cfg =
     (let sp0 = replicate 4 NUL;
          sp1 = (if HexDump cfg \<noteq> 0 then [SP, SP, NUL] @ drop 3 sp0 else sp0);
          sp2 = (if HexDump cfg \<noteq> 0 \<and> WordLen cfg \<noteq> 0 then sp1[1 := NUL] else sp1);
          sp3 = (if HexDump cfg \<noteq> 0 \<and> WordLen cfg \<noteq> 0 \<and> HalfGap cfg \<noteq> 0
                 then sp2[0 := NUL] else sp2)
      in takeWhile (\<lambda>c. c \<noteq> NUL) sp3)"

text \<open>\<open>fprintf( fpo, "%s|%s|", sp, asc )\<close>.\<close>

definition gutter :: "config \<Rightarrow> char list \<Rightarrow> fault + string" where
  "gutter cfg a =
     (case c_str a of Inl e \<Rightarrow> Inl e | Inr t \<Rightarrow> Inr (gutter_sp cfg @ ''|'' @ t @ ''|''))"

subsection \<open>The pieces of the loop body\<close>

text \<open>The address printed at the start of a line.\<close>

definition fmt_addr :: "config \<Rightarrow> int \<Rightarrow> string" where
  "fmt_addr cfg a =
     (let lo = (LoCase cfg \<noteq> 0) in
      if AddrNum cfg = 1 then printf_hex lo 4 a @ ''  ''
      else if AddrNum cfg = 2 then printf_hex lo 8 a @ ''  ''
      else if AddrNum cfg = 3 then
        (if a < 0x00010000 then ''    '' @ printf_hex lo 4 a @ ''  ''
         else if a < 0x00100000 then ''   '' @ printf_hex lo 5 a @ ''  ''
         else if a < 0x01000000 then ''  '' @ printf_hex lo 6 a @ ''  ''
         else if a < 0x10000000 then '' '' @ printf_hex lo 7 a @ ''  ''
         else printf_hex lo 8 a @ ''  '')
      else [])"

definition line_start :: "config \<Rightarrow> dstate \<Rightarrow> string" where
  "line_start cfg s = (if ix s = 0 \<and> AddrNum cfg \<noteq> 0 then fmt_addr cfg (adr s) else [])"

definition hex_pair :: "config \<Rightarrow> int \<Rightarrow> string" where
  "hex_pair cfg ch = (if HexDump cfg \<noteq> 0 then printf_hex (LoCase cfg \<noteq> 0) 2 ch else [])"

text \<open>
  The grouping separators printed after the byte with the incremented index \<open>i\<close>;
  \<open>%\<close> is C's remainder, which truncates towards zero.
\<close>

definition group_sep :: "config \<Rightarrow> int \<Rightarrow> string" where
  "group_sep cfg i =
     (if HexDump cfg \<noteq> 0
      then (if WordLen cfg \<noteq> 0 \<and> i smod WordLen cfg = 0 then '' '' else [])
         @ (if HalfGap cfg \<noteq> 0 \<and> i smod HalfGap cfg = 0 then '' '' else [])
      else [])"

text \<open>The text that ends a full line: the gutter when ASCII is shown, then a newline.\<close>

definition wrap_text :: "config \<Rightarrow> char list \<Rightarrow> fault + string" where
  "wrap_text cfg a =
     (if Ascii cfg \<noteq> 0
      then (case gutter cfg a of Inl e \<Rightarrow> Inl e | Inr g \<Rightarrow> Inr (g @ [NL]))
      else Inr [NL])"

text \<open>
  One pass of the loop body for a byte that is neither skipped nor beyond the limit, in
  the order of the source: the store into \<open>asc\<close>, \<open>ix++\<close>, the line wrap when \<open>ix\<close> has reached
  \<open>PerLine\<close>, then \<open>adr++\<close> and \<open>cnt++\<close>. The text of the pass is the address when the line
  starts, the hex digits, the grouping separators and the text of the wrap.
\<close>

definition dump_byte :: "config \<Rightarrow> int \<Rightarrow> dstate \<Rightarrow> fault + dstate" where
  "dump_byte cfg ch s =
     (case (if Ascii cfg \<noteq> 0 then asc_store (asc s) (ix s) (asc_char ch) else Inr (asc s)) of
        Inl e \<Rightarrow> Inl e
      | Inr a \<Rightarrow>
     (case incr (ix s) of
        Inl e \<Rightarrow> Inl e
      | Inr i \<Rightarrow>
     (case (if PerLine cfg \<noteq> 0 \<and> i \<ge> PerLine cfg then wrap_text cfg a else Inr []) of
        Inl e \<Rightarrow> Inl e
      | Inr w \<Rightarrow>
     (case incr (adr s) of
        Inl e \<Rightarrow> Inl e
      | Inr a1 \<Rightarrow>
     (case incr (cnt s) of
        Inl e \<Rightarrow> Inl e
      | Inr c1 \<Rightarrow>
          Inr \<lparr>adr = a1, cnt = c1,
               ix = (if PerLine cfg \<noteq> 0 \<and> i \<ge> PerLine cfg then 0 else i),
               asc = (if PerLine cfg \<noteq> 0 \<and> i \<ge> PerLine cfg then asc_clear else a),
               out = out s @ line_start cfg s @ hex_pair cfg ch @ group_sep cfg i @ w\<rparr>)))))"

subsection \<open>The read loop\<close>

text \<open>
  \<open>while ( ( ch = fgetc( fpi ) ) != EOF  &&  ( !Count  ||  cnt < Count ) )\<close>: the byte
  is read before the limit is tested. The result is the state after the loop, the last
  value of \<open>ch\<close>, and the input that was not read. A byte is skipped when
  \<open>adr < Start\<close>: \<open>adr\<close> is then below an \<open>int\<close> value, and \<open>adr++\<close> cannot overflow.
\<close>

fun dump_loop :: "config \<Rightarrow> byte list \<Rightarrow> dstate \<Rightarrow> fault + (dstate \<times> int \<times> byte list)" where
  "dump_loop cfg [] s = Inr (s, EOF, [])"
| "dump_loop cfg (b # bs) s =
     (if \<not> (Count cfg = 0 \<or> cnt s < Count cfg) then Inr (s, uint b, bs)
      else if Start cfg \<noteq> 0 \<and> adr s < Start cfg
        then dump_loop cfg bs (s\<lparr>adr := adr s + 1\<rparr>)
      else (case dump_byte cfg (uint b) s of
              Inl e \<Rightarrow> Inl e
            | Inr s' \<Rightarrow> dump_loop cfg bs s'))"

subsection \<open>End-of-file processing\<close>

text \<open>
  \<open>while ( PerLine  &&  ix < PerLine )\<close>: blank-fill the rest of the hex columns. Here
  \<open>ix\<close> is below the \<open>int\<close> value \<open>PerLine\<close>, and \<open>ix++\<close> cannot overflow.
\<close>

function blank_fill ::
  "config \<Rightarrow> int \<Rightarrow> char list \<Rightarrow> string \<Rightarrow> fault + (int \<times> char list \<times> string)" where
  "blank_fill cfg i a t =
     (if PerLine cfg \<noteq> 0 \<and> i < PerLine cfg
      then (case (if AscWide cfg \<noteq> 0 then asc_store a i SP else Inr a) of
              Inl e \<Rightarrow> Inl e
            | Inr a' \<Rightarrow>
                blank_fill cfg (i + 1) a'
                  (t @ (if HexDump cfg \<noteq> 0 then ''  '' else []) @ group_sep cfg (i + 1)))
      else Inr (i, a, t))"
  by pat_completeness auto
termination
  by (relation "measure (\<lambda>(cfg, i, a, t). nat (PerLine cfg - i))") auto

declare blank_fill.simps [simp del]

definition flush_line :: "config \<Rightarrow> dstate \<Rightarrow> fault + string" where
  "flush_line cfg s =
     (if Ascii cfg \<noteq> 0 \<and> ix s \<noteq> 0
      then (case blank_fill cfg (ix s) (asc s) (out s) of
              Inl e \<Rightarrow> Inl e
            | Inr (i, a, t) \<Rightarrow>
                (case gutter cfg a of Inl e \<Rightarrow> Inl e | Inr g \<Rightarrow> Inr (t @ g @ [NL])))
      else if ix s \<noteq> 0 then Inr (out s @ [NL])
      else Inr (out s))"

text \<open>\<open>if ( EndAddr )  fprintf( fpo, "%08x\n", cnt )\<close>.\<close>

definition end_addr :: "config \<Rightarrow> int \<Rightarrow> string" where
  "end_addr cfg n = (if EndAddr cfg \<noteq> 0 then printf_hex True 8 n @ [NL] else [])"

definition init_state :: dstate where
  "init_state = \<lparr>adr = 0, cnt = 0, ix = 0, asc = asc_clear, out = []\<rparr>"

text \<open>
  The whole function, for open files: the text written, the returned \<open>int\<close>
  (\<open>ch == EOF ? cnt : -cnt\<close>) and the unread input.
\<close>

definition dump_file :: "config \<Rightarrow> byte list \<Rightarrow> fault + (string \<times> int \<times> byte list)" where
  "dump_file cfg S =
     (case dump_loop cfg S init_state of
        Inl e \<Rightarrow> Inl e
      | Inr (s, ch, rest) \<Rightarrow>
          (case flush_line cfg s of
             Inl e \<Rightarrow> Inl e
           | Inr t \<Rightarrow>
               Inr (t @ end_addr cfg (cnt s), if ch = EOF then cnt s else - cnt s, rest)))"

text \<open>
  How \<open>main\<close> reads the returned value: \<open>count = ( cnt >= 0 ? cnt : -cnt )\<close> bytes, and
  "End-of-File" when \<open>cnt >= 0\<close>, "End-of-Dump" (stopped by the limit) otherwise.
\<close>

definition bytesEmitted :: "int \<Rightarrow> int" where
  "bytesEmitted r = (if r \<ge> 0 then r else - r)"

definition truncated :: "int \<Rightarrow> bool" where
  "truncated r = (\<not> r \<ge> 0)"

text \<open>The defaults that \<open>main\<close> sets before it reads the options.\<close>

definition default_config :: config where
  "default_config =
     \<lparr>Ascii = 1, LoCase = 0, WordLen = 1, PerLine = 16, AddrNum = 2, HalfGap = 0,
      EndAddr = 0, AscWide = 1, HexDump = 1, Start = 0, Count = 0\<rparr>"

section \<open>Notions used to state the properties\<close>

subsection \<open>The dumped bytes and the end of the loop\<close>

text \<open>The loop body applied to each byte of a list in turn.\<close>

fun put_bytes :: "config \<Rightarrow> byte list \<Rightarrow> dstate \<Rightarrow> fault + dstate" where
  "put_bytes cfg [] s = Inr s"
| "put_bytes cfg (b # bs) s =
     (case dump_byte cfg (uint b) s of Inl e \<Rightarrow> Inl e | Inr s' \<Rightarrow> put_bytes cfg bs s')"

text \<open>
  The bytes that are dumped, for a non-negative start and limit: those after the first
  \<open>Start\<close> ones, cut at \<open>Count\<close> if a limit is set.
\<close>

definition emitted :: "config \<Rightarrow> byte list \<Rightarrow> byte list" where
  "emitted cfg S =
     (if Count cfg = 0 then drop (nat (Start cfg)) S
      else take (nat (Count cfg)) (drop (nat (Start cfg)) S))"

text \<open>
  For a non-negative start and limit: the last value of \<open>ch\<close> and the input left unread
  when the loop ends.
\<close>

definition last_ch :: "config \<Rightarrow> byte list \<Rightarrow> int" where
  "last_ch cfg S =
     (if Count cfg \<noteq> 0 \<and> nat (Count cfg) < length (drop (nat (Start cfg)) S)
      then uint (drop (nat (Start cfg)) S ! nat (Count cfg)) else EOF)"

definition unread :: "config \<Rightarrow> byte list \<Rightarrow> byte list" where
  "unread cfg S =
     (if Count cfg = 0 then [] else drop (Suc (nat (Count cfg))) (drop (nat (Start cfg)) S))"

text \<open>The number of bytes that \<open>fgetc\<close> delivered during a dump that completes.\<close>

definition consumed :: "config \<Rightarrow> byte list \<Rightarrow> nat option" where
  "consumed cfg S =
     (case dump_file cfg S of Inl e \<Rightarrow> None | Inr (t, r, rest) \<Rightarrow> Some (length S - length rest))"

subsection \<open>The line buffer\<close>

text \<open>
  The line buffer has room for each line of a dump of \<open>n\<close> bytes and for the NUL that ends
  it: ASCII is not shown, or a line has fewer than 64 bytes, which for a dump that never
  wraps (\<open>PerLine = 0\<close>) is all the \<open>n\<close> bytes.
\<close>

definition asc_room :: "config \<Rightarrow> nat \<Rightarrow> bool" where
  "asc_room cfg n =
     (Ascii cfg = 0 \<or> (if PerLine cfg = 0 then n < 64 else PerLine cfg < 64))"

text \<open>The buffer \<open>asc\<close> holding the text \<open>A\<close>, NUL from there on.\<close>

definition asc_buf :: "string \<Rightarrow> char list" where
  "asc_buf A = A @ replicate (64 - length A) NUL"

subsection \<open>The layout of a line\<close>

text \<open>
  The hex columns of bytes placed from index \<open>i\<close> on, the blank columns that fill a
  short line, the gutter text of a list of bytes and the address column; then a full
  line and a short last line made of them.
\<close>

fun hex_cells :: "config \<Rightarrow> int \<Rightarrow> byte list \<Rightarrow> string" where
  "hex_cells cfg i [] = []"
| "hex_cells cfg i (b # bs) =
     hex_pair cfg (uint b) @ group_sep cfg (i + 1) @ hex_cells cfg (i + 1) bs"

fun blank_cells :: "config \<Rightarrow> int \<Rightarrow> nat \<Rightarrow> string" where
  "blank_cells cfg i 0 = []"
| "blank_cells cfg i (Suc m) =
     (if HexDump cfg \<noteq> 0 then ''  '' else []) @ group_sep cfg (i + 1) @ blank_cells cfg (i + 1) m"

definition asc_text :: "byte list \<Rightarrow> string" where
  "asc_text bs = map (\<lambda>b. asc_char (uint b)) bs"

definition addr_col :: "config \<Rightarrow> int \<Rightarrow> string" where
  "addr_col cfg a = (if AddrNum cfg \<noteq> 0 then fmt_addr cfg a else [])"

definition full_line :: "config \<Rightarrow> int \<Rightarrow> byte list \<Rightarrow> string" where
  "full_line cfg a bs =
     addr_col cfg a @ hex_cells cfg 0 bs
     @ (if Ascii cfg \<noteq> 0 then gutter_sp cfg @ ''|'' @ asc_text bs @ ''|'' else [])
     @ [NL]"

definition part_line :: "config \<Rightarrow> int \<Rightarrow> byte list \<Rightarrow> string" where
  "part_line cfg a bs =
     addr_col cfg a @ hex_cells cfg 0 bs
     @ (if Ascii cfg \<noteq> 0
        then blank_cells cfg (int (length bs)) (nat (PerLine cfg) - length bs)
             @ gutter_sp cfg @ ''|'' @ asc_text bs
             @ (if AscWide cfg \<noteq> 0 then replicate (nat (PerLine cfg) - length bs) SP else [])
             @ ''|''
        else [])
     @ [NL]"

text \<open>
  The lines of a dump of the bytes \<open>E\<close> from address \<open>a\<close> on, \<open>N\<close> bytes to a line: a
  full line for each of the \<open>length E div N\<close> runs of \<open>N\<close> bytes, then a short line for
  the remaining \<open>length E mod N\<close> bytes, if there are any.
\<close>

definition dump_lines :: "config \<Rightarrow> nat \<Rightarrow> int \<Rightarrow> byte list \<Rightarrow> string" where
  "dump_lines cfg N a E =
     concat (map (\<lambda>j. full_line cfg (a + int (j * N)) (take N (drop (j * N) E)))
               [0..<length E div N])
     @ (if length E mod N = 0 then []
        else part_line cfg (a + int (length E div N * N)) (drop (length E div N * N) E))"

text \<open>
  The text of a dump of the bytes \<open>E\<close> from address \<open>a\<close> on: when the line never wraps
  (\<open>PerLine = 0\<close>) one line that holds all the bytes, if there are any, and the lines of
  \<open>PerLine\<close> bytes otherwise.
\<close>

definition dump_text :: "config \<Rightarrow> int \<Rightarrow> byte list \<Rightarrow> string" where
  "dump_text cfg a E =
     (if PerLine cfg = 0 then (if E = [] then [] else full_line cfg a E)
      else dump_lines cfg (nat (PerLine cfg)) a E)"

text \<open>The characters of the address and hex columns: hex digits and blanks.\<close>

definition column_chars :: "char set" where
  "column_chars = set ''0123456789abcdefABCDEF'' \<union> {SP}"

text \<open>The number of line terminators in a text.\<close>

definition newlines :: "string \<Rightarrow> nat" where
  "newlines t = length (filter (\<lambda>c. c = NL) t)"

text \<open>
  The number of digits of the address column in variable mode, by the magnitude of the
  address, and the number of non-blank characters of an address field.
\<close>

definition var_digits :: "int \<Rightarrow> nat" where
  "var_digits a =
     (if a < 0x10000 then 4 else if a < 0x100000 then 5 else if a < 0x1000000 then 6
      else if a < 0x10000000 then 7 else 8)"

definition digit_count :: "string \<Rightarrow> nat" where
  "digit_count f = length (filter (\<lambda>c. c \<noteq> SP) f)"

subsection \<open>Reading a dump back\<close>

text \<open>
  The text is cut into lines at the line terminators; in each line the address column
  (the first 10 characters) is dropped and the text up to the bar that opens the gutter
  is kept; blanks are ignored and each pair of hex digits is read as a byte.
\<close>

definition hexval :: "char \<Rightarrow> nat option" where
  "hexval c =
     (if c \<in> set ''0123456789'' then Some (of_char c - 48)
      else if c \<in> set ''ABCDEF'' then Some (of_char c - 55)
      else if c \<in> set ''abcdef'' then Some (of_char c - 87)
      else None)"

fun hex_bytes :: "string \<Rightarrow> byte list" where
  "hex_bytes (c # d # cs) =
     (case (hexval c, hexval d) of
        (Some x, Some y) \<Rightarrow> word_of_nat (16 * x + y) # hex_bytes cs
      | _ \<Rightarrow> [])"
| "hex_bytes cs = []"

fun lines_of :: "string \<Rightarrow> string list" where
  "lines_of [] = []"
| "lines_of (c # cs) =
     (if c = NL then [] # lines_of cs
      else (case lines_of cs of [] \<Rightarrow> [[c]] | l # ls \<Rightarrow> (c # l) # ls))"

definition line_bytes :: "string \<Rightarrow> byte list" where
  "line_bytes l =
     hex_bytes (filter (\<lambda>c. c \<noteq> SP) (takeWhile (\<lambda>c. c \<noteq> CHR ''|'') (drop 10 l)))"

definition undump :: "string \<Rightarrow> byte list" where
  "undump t = concat (map line_bytes (lines_of t))"

subsection \<open>Concrete configurations and states\<close>

text \<open>
  Byte groups of one with a half gap of eight, and the states before and after the
  eighth byte \<open>A\<close> of a line.
\<close>

definition cfg_gap :: config where
  "cfg_gap = default_config\<lparr>Ascii := 0, AddrNum := 0, HalfGap := 8\<rparr>"

definition st7 :: dstate where
  "st7 = \<lparr>adr = 7, cnt = 7, ix = 7, asc = asc_clear, out = []\<rparr>"

definition st8 :: dstate where
  "st8 = \<lparr>adr = 8, cnt = 8, ix = 8, asc = asc_clear, out = ''41  ''\<rparr>"

text \<open>
  ASCII only, two bytes to a line, and the states before and after the second byte
  \<open>B\<close> of a line that began with \<open>A\<close>.
\<close>

definition cfg_asc :: config where
  "cfg_asc = default_config\<lparr>HexDump := 0, AddrNum := 0, PerLine := 2\<rparr>"

definition st_a :: dstate where
  "st_a = \<lparr>adr = 1, cnt = 1, ix = 1, asc = asc_clear[0 := CHR ''A''], out = []\<rparr>"

definition st_ab :: dstate where
  "st_ab = \<lparr>adr = 2, cnt = 2, ix = 0, asc = asc_clear, out = ''|AB|'' @ [NL]\<rparr>"


text \<open>An input of 17 bytes, the text \<open>example pipe cont\<close>: one full line and one byte.\<close>

definition sample :: "byte list" where
  "sample = [0x65, 0x78, 0x61, 0x6D, 0x70, 0x6C, 0x65, 0x20, 0x70, 0x69, 0x70, 0x65, 0x20,
             0x63, 0x6F, 0x6E, 0x74]"

text \<open>The configuration after the option \<open>-X\<close>, which emulates \<open>hexdump -C -v\<close>.\<close>

definition cfg_hexdump :: config where
  "cfg_hexdump = default_config\<lparr>LoCase := 1, HalfGap := 8, AscWide := 0, EndAddr := 1\<rparr>"

text \<open>The configuration after the options \<open>-p +a\<close>: no line wrap, ASCII shown.\<close>

definition cfg_cont :: config where
  "cfg_cont = default_config\<lparr>PerLine := 0, AddrNum := 0\<rparr>"

section \<open>Properties\<close>

subsection \<open>Increments\<close>

lemma incr_Inr: "(incr x = Inr y) = (x < INT_MAX \<and> y = x + 1)"
  by (auto simp: incr_def)

lemma incr_ok: "x < INT_MAX \<Longrightarrow> incr x = Inr (x + 1)"
  by (simp add: incr_def)

subsection \<open>Hexadecimal conversions\<close>

lemma hexdigit_in: "hexdigit lo d \<in> set ''0123456789abcdefABCDEF''"
proof -
  have "''0123456789abcdef'' ! (d mod 16) \<in> set ''0123456789abcdef''"
    by (rule nth_mem) simp
  moreover have "''0123456789ABCDEF'' ! (d mod 16) \<in> set ''0123456789ABCDEF''"
    by (rule nth_mem) simp
  ultimately show ?thesis
    unfolding hexdigit_def by (cases lo) auto
qed

lemma set_hexn: "set (hexn lo k v) \<subseteq> set ''0123456789abcdefABCDEF''"
proof (induction k arbitrary: v)
  case 0
  show ?case by simp
next
  case (Suc k)
  from Suc [of "v div 16"] hexdigit_in [of lo v] show ?case by simp
qed

lemma length_hexn [simp]: "length (hexn lo k v) = k"
  by (induction k arbitrary: v) simp_all

lemma ndigits_le: "0 < k \<Longrightarrow> u < 16 ^ k \<Longrightarrow> ndigits u \<le> k"
proof (induction u arbitrary: k rule: ndigits.induct)
  case (1 u)
  show ?case
  proof (cases "u < 16")
    case True
    with "1.prems" show ?thesis by (simp add: ndigits.simps)
  next
    case False
    from "1.prems" obtain i where ki: "k = Suc i" by (cases k) auto
    with "1.prems" False obtain j where k: "k = Suc j" and j: "0 < j"
      by (cases i) auto
    from "1.prems" k have "u div 16 < 16 ^ j"
      by (simp add: less_mult_imp_div_less mult.commute)
    with "1.IH" False j have "ndigits (u div 16) \<le> j" by simp
    with False k show ?thesis by (simp add: ndigits.simps [of u])
  qed
qed

lemma printf_hex_fits:
  assumes "0 < w" "0 \<le> v" "v < 16 ^ w" "w \<le> 8"
  shows "printf_hex lo w v = hexn lo w (nat v)"
proof -
  have "(16::int) ^ w \<le> 16 ^ 8" using assms(4) by (intro power_increasing) simp_all
  with assms have "v < 2 ^ 32" by simp
  with assms(2) have v: "v mod 2 ^ 32 = v" by (rule mod_pos_pos_trivial)
  have "nat v < 16 ^ w" using assms by (simp add: nat_less_iff)
  with assms(1) have "ndigits (nat v) \<le> w" by (rule ndigits_le)
  then show ?thesis unfolding printf_hex_def v by (simp add: max_absorb1)
qed

lemma digit_count_hexn: "digit_count (hexn lo k v) = k"
proof -
  have "\<forall>c \<in> set (hexn lo k v). c \<noteq> SP"
    using set_hexn [of lo k v] by auto
  then have "filter (\<lambda>c. c \<noteq> SP) (hexn lo k v) = hexn lo k v"
    by (simp add: filter_id_conv)
  then show ?thesis by (simp add: digit_count_def)
qed

lemma digit_count_field:
  "digit_count (replicate n SP @ hexn lo k v @ [SP, SP]) = k"
  using digit_count_hexn [of lo k v] by (simp add: digit_count_def)

subsection \<open>The address column\<close>

lemma fmt_addr_variable:
  assumes "AddrNum cfg = 3" "0 \<le> a" "a < 2 ^ 31"
  shows "fmt_addr cfg a =
           replicate (8 - var_digits a) SP @ hexn (LoCase cfg \<noteq> 0) (var_digits a) (nat a) @ [SP, SP]"
proof -
  have r: "replicate 4 SP = ''    ''" "replicate 3 SP = ''   ''" "replicate 2 SP = ''  ''"
    "replicate 1 SP = '' ''"
    by (simp_all add: numeral_eq_Suc)
  consider "a < 0x10000" | "0x10000 \<le> a" "a < 0x100000" | "0x100000 \<le> a" "a < 0x1000000"
    | "0x1000000 \<le> a" "a < 0x10000000" | "0x10000000 \<le> a"
    by linarith
  then show ?thesis
  proof cases
    case 1
    with assms have "printf_hex (LoCase cfg \<noteq> 0) 4 a = hexn (LoCase cfg \<noteq> 0) 4 (nat a)"
      by (intro printf_hex_fits) simp_all
    with 1 assms(1) show ?thesis by (simp add: fmt_addr_def var_digits_def r)
  next
    case 2
    with assms have "printf_hex (LoCase cfg \<noteq> 0) 5 a = hexn (LoCase cfg \<noteq> 0) 5 (nat a)"
      by (intro printf_hex_fits) simp_all
    with 2 assms(1) show ?thesis by (simp add: fmt_addr_def var_digits_def r)
  next
    case 3
    with assms have "printf_hex (LoCase cfg \<noteq> 0) 6 a = hexn (LoCase cfg \<noteq> 0) 6 (nat a)"
      by (intro printf_hex_fits) simp_all
    with 3 assms(1) show ?thesis by (simp add: fmt_addr_def var_digits_def r)
  next
    case 4
    with assms have "printf_hex (LoCase cfg \<noteq> 0) 7 a = hexn (LoCase cfg \<noteq> 0) 7 (nat a)"
      by (intro printf_hex_fits) simp_all
    with 4 assms(1) show ?thesis by (simp add: fmt_addr_def var_digits_def r)
  next
    case 5
    with assms have "printf_hex (LoCase cfg \<noteq> 0) 8 a = hexn (LoCase cfg \<noteq> 0) 8 (nat a)"
      by (intro printf_hex_fits) simp_all
    with 5 assms(1) show ?thesis by (simp add: fmt_addr_def var_digits_def)
  qed
qed

text \<open>
  Claim C8. In variable address mode (\<open>AddrNum = 3\<close>) the address field of a
  non-negative \<open>int\<close> address is made of leading blanks, then 4, 5, 6, 7 or 8 hex digits
  according to the thresholds \<open>0x10000\<close>, \<open>0x100000\<close>, \<open>0x1000000\<close> and \<open>0x10000000\<close>,
  then two blanks. The number of digits does not decrease when the address grows, and
  the field is always 10 characters wide.
\<close>

theorem variable_address_field:
  assumes "AddrNum cfg = 3" "0 \<le> a1" "a1 \<le> a2" "a2 < 2 ^ 31"
  shows "fmt_addr cfg a1 =
           replicate (8 - var_digits a1) SP @ hexn (LoCase cfg \<noteq> 0) (var_digits a1) (nat a1) @ [SP, SP]
       \<and> fmt_addr cfg a2 =
           replicate (8 - var_digits a2) SP @ hexn (LoCase cfg \<noteq> 0) (var_digits a2) (nat a2) @ [SP, SP]
       \<and> digit_count (fmt_addr cfg a1) = var_digits a1
       \<and> digit_count (fmt_addr cfg a2) = var_digits a2
       \<and> digit_count (fmt_addr cfg a1) \<le> digit_count (fmt_addr cfg a2)
       \<and> length (fmt_addr cfg a1) = 10 \<and> length (fmt_addr cfg a2) = 10"
proof -
  from assms have f1: "fmt_addr cfg a1 =
      replicate (8 - var_digits a1) SP @ hexn (LoCase cfg \<noteq> 0) (var_digits a1) (nat a1) @ [SP, SP]"
    by (intro fmt_addr_variable) simp_all
  from assms have f2: "fmt_addr cfg a2 =
      replicate (8 - var_digits a2) SP @ hexn (LoCase cfg \<noteq> 0) (var_digits a2) (nat a2) @ [SP, SP]"
    by (intro fmt_addr_variable) simp_all
  have d1: "digit_count (fmt_addr cfg a1) = var_digits a1"
    unfolding f1 by (rule digit_count_field)
  have d2: "digit_count (fmt_addr cfg a2) = var_digits a2"
    unfolding f2 by (rule digit_count_field)
  have m: "var_digits a1 \<le> var_digits a2"
    using assms(3) by (simp add: var_digits_def)
  have l1: "length (fmt_addr cfg a1) = 10"
    unfolding f1 by (simp add: var_digits_def)
  have l2: "length (fmt_addr cfg a2) = 10"
    unfolding f2 by (simp add: var_digits_def)
  from f1 f2 d1 d2 m l1 l2 show ?thesis by simp
qed

theorem variable_address_field_witness:
  "AddrNum (default_config\<lparr>AddrNum := 3\<rparr>) = 3 \<and> (0::int) \<le> 0xFFFF \<and> (0xFFFF::int) \<le> 0x10000
   \<and> (0x10000::int) < 2 ^ 31
   \<and> digit_count (fmt_addr (default_config\<lparr>AddrNum := 3\<rparr>) 0xFFFF) = 4
   \<and> digit_count (fmt_addr (default_config\<lparr>AddrNum := 3\<rparr>) 0x10000) = 5
   \<and> length (fmt_addr (default_config\<lparr>AddrNum := 3\<rparr>) 0x10000) = 10"
proof -
  have h: "AddrNum (default_config\<lparr>AddrNum := 3\<rparr>) = 3" "(0::int) \<le> 0xFFFF"
    "(0xFFFF::int) \<le> 0x10000" "(0x10000::int) < 2 ^ 31"
    by simp_all
  note t = variable_address_field [OF h]
  from t have "digit_count (fmt_addr (default_config\<lparr>AddrNum := 3\<rparr>) 0xFFFF) = var_digits 0xFFFF"
    by blast
  moreover from t
  have "digit_count (fmt_addr (default_config\<lparr>AddrNum := 3\<rparr>) 0x10000) = var_digits 0x10000"
    by blast
  moreover from t have "length (fmt_addr (default_config\<lparr>AddrNum := 3\<rparr>) 0x10000) = 10"
    by blast
  ultimately show ?thesis using h by (simp add: var_digits_def)
qed

subsection \<open>Grouping separators and the gutter separator\<close>

lemma smod_nonneg: "0 \<le> (a::int) \<Longrightarrow> 0 < b \<Longrightarrow> a smod b = a mod b"
  by (cases "a = 0") (simp_all add: smod_int_alt_def)

lemma group_sep_nonneg:
  assumes "HexDump cfg \<noteq> 0" "0 \<le> WordLen cfg" "0 \<le> HalfGap cfg" "0 \<le> i"
  shows "group_sep cfg i =
           (if 0 < WordLen cfg \<and> i mod WordLen cfg = 0 then '' '' else [])
         @ (if 0 < HalfGap cfg \<and> i mod HalfGap cfg = 0 then '' '' else [])"
proof -
  have w: "(WordLen cfg \<noteq> 0 \<and> i smod WordLen cfg = 0) = (0 < WordLen cfg \<and> i mod WordLen cfg = 0)"
    using assms(2,4) by (cases "WordLen cfg = 0") (simp_all add: smod_nonneg)
  have h: "(HalfGap cfg \<noteq> 0 \<and> i smod HalfGap cfg = 0) = (0 < HalfGap cfg \<and> i mod HalfGap cfg = 0)"
    using assms(3,4) by (cases "HalfGap cfg = 0") (simp_all add: smod_nonneg)
  show ?thesis
    unfolding group_sep_def w h using assms(1) by simp
qed

lemma dump_byte_out:
  assumes "dump_byte cfg ch s = Inr s'"
  shows "\<exists>w. out s' = out s @ line_start cfg s @ hex_pair cfg ch @ group_sep cfg (ix s + 1) @ w
           \<and> (if PerLine cfg \<noteq> 0 \<and> PerLine cfg \<le> ix s + 1
               then wrap_text cfg (if Ascii cfg \<noteq> 0 then (asc s)[nat (ix s) := asc_char ch] else asc s) = Inr w
               else w = [])"
  using assms
  by (auto simp: dump_byte_def asc_store_def incr_Inr split: if_splits sum.splits)

text \<open>
  Claim C9. With hex digits shown and non-negative group sizes, a pass of the loop body
  that places a byte at index \<open>ix\<close> prints, right after the two hex digits, one blank when
  \<open>WordLen > 0\<close> and \<open>(ix + 1) % WordLen = 0\<close>, and one more blank when \<open>HalfGap > 0\<close>
  and \<open>(ix + 1) % HalfGap = 0\<close>, each test on its own; only the text of the line wrap,
  if the line is full, follows. With \<open>WordLen = 1\<close> and \<open>HalfGap = 8\<close> this is two blanks
  after every eighth byte of the line and one blank after any other byte.
\<close>

theorem grouping_separators:
  assumes "HexDump cfg \<noteq> 0" "0 \<le> WordLen cfg" "0 \<le> HalfGap cfg" "0 \<le> ix s"
    and "dump_byte cfg ch s = Inr s'"
  shows "(\<exists>w. out s' = out s @ line_start cfg s @ printf_hex (LoCase cfg \<noteq> 0) 2 ch
                 @ (if 0 < WordLen cfg \<and> (ix s + 1) mod WordLen cfg = 0 then '' '' else [])
                 @ (if 0 < HalfGap cfg \<and> (ix s + 1) mod HalfGap cfg = 0 then '' '' else [])
                 @ w
             \<and> (if PerLine cfg \<noteq> 0 \<and> PerLine cfg \<le> ix s + 1
                 then wrap_text cfg (if Ascii cfg \<noteq> 0 then (asc s)[nat (ix s) := asc_char ch] else asc s) = Inr w
                 else w = []))
       \<and> (WordLen cfg = 1 \<and> HalfGap cfg = 8 \<longrightarrow>
            group_sep cfg (ix s + 1) = (if (ix s + 1) mod 8 = 0 then ''  '' else '' ''))"
proof -
  from assms(4) have i: "0 \<le> ix s + 1" by simp
  note g = group_sep_nonneg [OF assms(1-3) i]
  from dump_byte_out [OF assms(5)] assms(1) have
    "\<exists>w. out s' = out s @ line_start cfg s @ printf_hex (LoCase cfg \<noteq> 0) 2 ch
                 @ group_sep cfg (ix s + 1) @ w
             \<and> (if PerLine cfg \<noteq> 0 \<and> PerLine cfg \<le> ix s + 1
                 then wrap_text cfg (if Ascii cfg \<noteq> 0 then (asc s)[nat (ix s) := asc_char ch] else asc s) = Inr w
                 else w = [])"
    by (simp add: hex_pair_def)
  then have a: "\<exists>w. out s' = out s @ line_start cfg s @ printf_hex (LoCase cfg \<noteq> 0) 2 ch
                 @ (if 0 < WordLen cfg \<and> (ix s + 1) mod WordLen cfg = 0 then '' '' else [])
                 @ (if 0 < HalfGap cfg \<and> (ix s + 1) mod HalfGap cfg = 0 then '' '' else [])
                 @ w
             \<and> (if PerLine cfg \<noteq> 0 \<and> PerLine cfg \<le> ix s + 1
                 then wrap_text cfg (if Ascii cfg \<noteq> 0 then (asc s)[nat (ix s) := asc_char ch] else asc s) = Inr w
                 else w = [])"
    unfolding g by simp
  have b: "WordLen cfg = 1 \<and> HalfGap cfg = 8 \<longrightarrow>
      group_sep cfg (ix s + 1) = (if (ix s + 1) mod 8 = 0 then ''  '' else '' '')"
    unfolding g by simp
  from a b show ?thesis by (rule conjI)
qed

theorem grouping_separators_witness:
  "HexDump cfg_gap \<noteq> 0 \<and> 0 \<le> WordLen cfg_gap \<and> 0 \<le> HalfGap cfg_gap \<and> 0 \<le> ix st7
   \<and> dump_byte cfg_gap 0x41 st7 = Inr st8
   \<and> WordLen cfg_gap = 1 \<and> HalfGap cfg_gap = 8
   \<and> group_sep cfg_gap (ix st7 + 1) = ''  ''"
proof -
  have h: "HexDump cfg_gap \<noteq> 0" "0 \<le> WordLen cfg_gap" "0 \<le> HalfGap cfg_gap" "0 \<le> ix st7"
    by (simp_all add: cfg_gap_def default_config_def st7_def)
  have d: "dump_byte cfg_gap 0x41 st7 = Inr st8"
    by code_simp
  have c: "WordLen cfg_gap = 1 \<and> HalfGap cfg_gap = 8"
    by (simp add: cfg_gap_def default_config_def)
  from grouping_separators [OF h d] c
  have "group_sep cfg_gap (ix st7 + 1) = (if (ix st7 + 1) mod 8 = 0 then ''  '' else '' '')"
    by blast
  then have "group_sep cfg_gap (ix st7 + 1) = ''  ''"
    by (simp add: st7_def)
  with h d c show ?thesis by simp
qed

lemma blank_fill_no_hex:
  "HexDump cfg = 0 \<Longrightarrow> blank_fill cfg i a t = Inr (j, a', t') \<Longrightarrow> t' = t"
proof (induction cfg i a t rule: blank_fill.induct)
  case (1 cfg i a t)
  show ?case
  proof (cases "PerLine cfg \<noteq> 0 \<and> i < PerLine cfg")
    case False
    with "1.prems" show ?thesis by (simp add: blank_fill.simps [of cfg i])
  next
    case True
    show ?thesis
    proof (cases "if AscWide cfg \<noteq> 0 then asc_store a i SP else Inr a")
      case (Inl e)
      with True "1.prems" show ?thesis by (simp add: blank_fill.simps [of cfg i])
    next
      case (Inr b)
      with True "1.prems" have "blank_fill cfg (i + 1) b t = Inr (j, a', t')"
        by (simp add: blank_fill.simps [of cfg i] group_sep_def)
      with "1.IH" [OF True Inr] "1.prems"(1) show ?thesis
        by (simp add: group_sep_def)
    qed
  qed
qed

lemma gutter_sp_no_hex: "HexDump cfg = 0 \<Longrightarrow> gutter_sp cfg = []"
  by (simp add: gutter_sp_def)

text \<open>
  Claim C10. With hex digits off and ASCII on, the separator \<open>sp\<close> before the gutter is
  empty whatever \<open>WordLen\<close> and \<open>HalfGap\<close> are: a pass of the loop body that wraps
  the line prints the gutter \<open>|...|\<close> and the newline right after the start of the line,
  and the end-of-file flush of a started line prints exactly the gutter and the newline.
\<close>

theorem gutter_separator_without_hex:
  assumes "HexDump cfg = 0" "Ascii cfg \<noteq> 0"
  shows "gutter_sp cfg = []
       \<and> (dump_byte cfg ch s = Inr s' \<and> PerLine cfg \<noteq> 0 \<and> PerLine cfg \<le> ix s + 1 \<longrightarrow>
            out s' = out s @ line_start cfg s @ ''|''
                     @ takeWhile (\<lambda>c. c \<noteq> NUL) ((asc s)[nat (ix s) := asc_char ch]) @ ''|'' @ [NL])
       \<and> (flush_line cfg s = Inr t \<and> ix s \<noteq> 0 \<longrightarrow>
            (\<exists>i a. blank_fill cfg (ix s) (asc s) (out s) = Inr (i, a, out s)
                 \<and> t = out s @ ''|'' @ takeWhile (\<lambda>c. c \<noteq> NUL) a @ ''|'' @ [NL]))"
proof -
  note g = gutter_sp_no_hex [OF assms(1)]
  have w: "out s' = out s @ line_start cfg s @ ''|''
                     @ takeWhile (\<lambda>c. c \<noteq> NUL) ((asc s)[nat (ix s) := asc_char ch]) @ ''|'' @ [NL]"
    if "dump_byte cfg ch s = Inr s'" "PerLine cfg \<noteq> 0" "PerLine cfg \<le> ix s + 1"
    using that assms
    by (auto simp: dump_byte_def asc_store_def wrap_text_def gutter_def c_str_def g hex_pair_def
        group_sep_def incr_Inr split: if_splits sum.splits)
  have f: "\<exists>i a. blank_fill cfg (ix s) (asc s) (out s) = Inr (i, a, out s)
                 \<and> t = out s @ ''|'' @ takeWhile (\<lambda>c. c \<noteq> NUL) a @ ''|'' @ [NL]"
    if fl: "flush_line cfg s = Inr t" and "ix s \<noteq> 0"
  proof -
    from fl that(2) assms(2) obtain i a u where
      b: "blank_fill cfg (ix s) (asc s) (out s) = Inr (i, a, u)"
      by (auto simp: flush_line_def split: sum.splits)
    from blank_fill_no_hex [OF assms(1) b] have u: "u = out s" .
    from fl that(2) assms(2) b u show ?thesis
      by (auto simp: flush_line_def gutter_def c_str_def g split: sum.splits if_splits)
  qed
  from g w f show ?thesis by blast
qed

theorem gutter_separator_without_hex_witness:
  "HexDump cfg_asc = 0 \<and> Ascii cfg_asc \<noteq> 0
   \<and> dump_byte cfg_asc 0x42 st_a = Inr st_ab \<and> PerLine cfg_asc \<noteq> 0
   \<and> PerLine cfg_asc \<le> ix st_a + 1
   \<and> flush_line cfg_asc st_a = Inr (''|A |'' @ [NL]) \<and> ix st_a \<noteq> 0
   \<and> gutter_sp cfg_asc = []
   \<and> out st_ab = out st_a @ line_start cfg_asc st_a @ ''|''
         @ takeWhile (\<lambda>c. c \<noteq> NUL) ((asc st_a)[nat (ix st_a) := asc_char 0x42]) @ ''|'' @ [NL]
   \<and> (\<exists>i a. blank_fill cfg_asc (ix st_a) (asc st_a) (out st_a) = Inr (i, a, out st_a)
          \<and> ''|A |'' @ [NL] = out st_a @ ''|'' @ takeWhile (\<lambda>c. c \<noteq> NUL) a @ ''|'' @ [NL])"
proof -
  have h: "HexDump cfg_asc = 0" "Ascii cfg_asc \<noteq> 0"
    by (simp_all add: cfg_asc_def default_config_def)
  have d: "dump_byte cfg_asc 0x42 st_a = Inr st_ab"
    by code_simp
  have f: "flush_line cfg_asc st_a = Inr (''|A |'' @ [NL])"
    by code_simp
  have p: "PerLine cfg_asc \<noteq> 0" "PerLine cfg_asc \<le> ix st_a + 1" "ix st_a \<noteq> 0"
    by (simp_all add: cfg_asc_def default_config_def st_a_def)
  note t = gutter_separator_without_hex [OF h, of "0x42" st_a st_ab "''|A |'' @ [NL]"]
  from t have 1: "gutter_sp cfg_asc = []"
    by (rule conjunct1)
  from t d p have 2: "out st_ab = out st_a @ line_start cfg_asc st_a @ ''|''
         @ takeWhile (\<lambda>c. c \<noteq> NUL) ((asc st_a)[nat (ix st_a) := asc_char 0x42]) @ ''|'' @ [NL]"
    by blast
  from t f p have 3: "\<exists>i a. blank_fill cfg_asc (ix st_a) (asc st_a) (out st_a) = Inr (i, a, out st_a)
          \<and> ''|A |'' @ [NL] = out st_a @ ''|'' @ takeWhile (\<lambda>c. c \<noteq> NUL) a @ ''|'' @ [NL]"
    by blast
  from h d f p 1 2 3 show ?thesis by blast
qed

subsection \<open>The read loop: skipping, emitting, stopping\<close>

lemma asc_char_not_NUL [simp]: "asc_char ch \<noteq> NUL"
proof -
  have "char_of ch \<noteq> NUL" if "32 \<le> ch" "ch \<le> 126"
  proof
    assume "char_of ch = NUL"
    then have "(of_char (char_of ch) :: int) = of_char NUL" by simp
    then have "ch mod 256 = 0" by simp
    with that show False by simp
  qed
  then show ?thesis by (auto simp: asc_char_def)
qed

lemma dump_byte_counters:
  "dump_byte cfg ch s = Inr s' \<Longrightarrow> adr s' = adr s + 1 \<and> cnt s' = cnt s + 1"
  by (auto simp: dump_byte_def incr_Inr split: if_splits sum.splits)

lemma put_bytes_counters:
  "put_bytes cfg bs s = Inr s' \<Longrightarrow>
     adr s' = adr s + int (length bs) \<and> cnt s' = cnt s + int (length bs)"
proof (induction bs arbitrary: s)
  case Nil
  then show ?case by simp
next
  case (Cons b bs)
  from Cons.prems obtain s1 where 1: "dump_byte cfg (uint b) s = Inr s1"
    and 2: "put_bytes cfg bs s1 = Inr s'"
    by (auto split: sum.splits)
  from dump_byte_counters [OF 1] Cons.IH [OF 2] show ?case by simp
qed

lemma dump_loop_unlimited:
  assumes "Start cfg = 0 \<or> Start cfg \<le> adr s" "Count cfg = 0"
  shows "dump_loop cfg S s =
           (case put_bytes cfg S s of Inl e \<Rightarrow> Inl e | Inr s' \<Rightarrow> Inr (s', EOF, []))"
  using assms(1)
proof (induction S arbitrary: s)
  case Nil
  then show ?case by simp
next
  case (Cons b bs)
  show ?case
  proof (cases "dump_byte cfg (uint b) s")
    case (Inl e)
    with Cons.prems assms(2) show ?thesis by auto
  next
    case (Inr s1)
    from dump_byte_counters [OF Inr] Cons.prems have "Start cfg = 0 \<or> Start cfg \<le> adr s1"
      by auto
    from Cons.IH [OF this] Inr Cons.prems assms(2) show ?thesis by auto
  qed
qed

lemma dump_loop_limited:
  assumes "Start cfg = 0 \<or> Start cfg \<le> adr s" "Count cfg \<noteq> 0" "cnt s \<le> Count cfg"
  shows "dump_loop cfg S s =
           (case put_bytes cfg (take (nat (Count cfg - cnt s)) S) s of
              Inl e \<Rightarrow> Inl e
            | Inr s' \<Rightarrow>
                Inr (s',
                     if nat (Count cfg - cnt s) < length S
                     then uint (S ! nat (Count cfg - cnt s)) else EOF,
                     drop (Suc (nat (Count cfg - cnt s))) S))"
  using assms(1,3)
proof (induction S arbitrary: s)
  case Nil
  then show ?case by simp
next
  case (Cons b bs)
  show ?case
  proof (cases "cnt s = Count cfg")
    case True
    with assms(2) show ?thesis by simp
  next
    case False
    with Cons.prems have lt: "cnt s < Count cfg" by simp
    then obtain n where n: "nat (Count cfg - cnt s) = Suc n" "n = nat (Count cfg - (cnt s + 1))"
      by (cases "nat (Count cfg - cnt s)") auto
    show ?thesis
    proof (cases "dump_byte cfg (uint b) s")
      case (Inl e)
      with Cons.prems lt n show ?thesis by auto
    next
      case (Inr s1)
      from dump_byte_counters [OF Inr] Cons.prems lt
      have 1: "Start cfg = 0 \<or> Start cfg \<le> adr s1" and 2: "cnt s1 \<le> Count cfg"
        and 3: "cnt s1 = cnt s + 1"
        by auto
      from 3 n(2) have e: "nat (Count cfg - cnt s1) = n" by simp
      note ih = Cons.IH [OF 1 2, unfolded e]
      have l: "dump_loop cfg (b # bs) s = dump_loop cfg bs s1"
        using Inr Cons.prems(1) lt by auto
      show ?thesis unfolding l ih n(1) using Inr by (simp split: sum.splits)
    qed
  qed
qed

lemma dump_loop_skip:
  assumes "0 \<le> adr s" "adr s \<le> Start cfg" "Count cfg = 0 \<or> cnt s < Count cfg"
  shows "dump_loop cfg S s =
           dump_loop cfg (drop (nat (Start cfg - adr s)) S)
             (s\<lparr>adr := min (Start cfg) (adr s + int (length S))\<rparr>)"
  using assms
proof (induction S arbitrary: s)
  case Nil
  then show ?case by (simp add: min_def)
next
  case (Cons b bs)
  show ?case
  proof (cases "adr s = Start cfg")
    case True
    then have "min (Start cfg) (adr s + int (length (b # bs))) = adr s" by simp
    then have "s\<lparr>adr := min (Start cfg) (adr s + int (length (b # bs)))\<rparr> = s" by simp
    moreover from True have "drop (nat (Start cfg - adr s)) (b # bs) = b # bs" by simp
    ultimately show ?thesis by (simp only:)
  next
    case False
    with Cons.prems have lt: "adr s < Start cfg" "Start cfg \<noteq> 0" by auto
    let ?s = "s\<lparr>adr := adr s + 1\<rparr>"
    from Cons.prems lt have p: "0 \<le> adr ?s" "adr ?s \<le> Start cfg"
      "Count cfg = 0 \<or> cnt ?s < Count cfg"
      by auto
    from lt obtain n where n: "nat (Start cfg - adr s) = Suc n" "n = nat (Start cfg - adr ?s)"
      by (cases "nat (Start cfg - adr s)") auto
    have "dump_loop cfg (b # bs) s = dump_loop cfg bs ?s"
      using Cons.prems(3) lt by auto
    also have "\<dots> = dump_loop cfg (drop (nat (Start cfg - adr ?s)) bs)
                      (?s\<lparr>adr := min (Start cfg) (adr ?s + int (length bs))\<rparr>)"
      by (rule Cons.IH [OF p])
    finally show ?thesis using n by (simp add: add.assoc)
  qed
qed

lemma dump_loop_init:
  assumes "0 \<le> Start cfg" "0 \<le> Count cfg"
  shows "dump_loop cfg S init_state =
           (case put_bytes cfg (emitted cfg S)
                   (init_state\<lparr>adr := min (Start cfg) (int (length S))\<rparr>) of
              Inl e \<Rightarrow> Inl e
            | Inr s' \<Rightarrow> Inr (s', last_ch cfg S, unread cfg S))"
proof -
  let ?s = "init_state\<lparr>adr := min (Start cfg) (int (length S))\<rparr>"
  let ?D = "drop (nat (Start cfg)) S"
  have i: "0 \<le> adr init_state" "adr init_state \<le> Start cfg"
    "Count cfg = 0 \<or> cnt init_state < Count cfg"
    using assms by (auto simp: init_state_def)
  have "dump_loop cfg S init_state =
          dump_loop cfg (drop (nat (Start cfg - adr init_state)) S)
            (init_state\<lparr>adr := min (Start cfg) (adr init_state + int (length S))\<rparr>)"
    by (rule dump_loop_skip [OF i])
  then have sk: "dump_loop cfg S init_state = dump_loop cfg ?D ?s"
    by (simp add: init_state_def)
  show ?thesis
  proof (cases "int (length S) < Start cfg")
    case True
    then have "?D = []" by simp
    then show ?thesis
      unfolding sk by (simp add: emitted_def last_ch_def unread_def)
  next
    case False
    then have a: "Start cfg = 0 \<or> Start cfg \<le> adr ?s" by simp
    show ?thesis
    proof (cases "Count cfg = 0")
      case True
      then have e: "emitted cfg S = ?D" "last_ch cfg S = EOF" "unread cfg S = []"
        by (simp_all add: emitted_def last_ch_def unread_def)
      show ?thesis
        unfolding sk e by (rule dump_loop_unlimited [OF a True])
    next
      case nz: False
      have c: "cnt ?s \<le> Count cfg" using assms(2) by (simp add: init_state_def)
      have z: "Count cfg - cnt ?s = Count cfg" by (simp add: init_state_def)
      from nz have e: "emitted cfg S = take (nat (Count cfg)) ?D"
        "last_ch cfg S = (if nat (Count cfg) < length ?D then uint (?D ! nat (Count cfg)) else EOF)"
        "unread cfg S = drop (Suc (nat (Count cfg))) ?D"
        by (simp_all add: emitted_def last_ch_def unread_def)
      show ?thesis
        unfolding sk e using dump_loop_limited [OF a nz c, of ?D] unfolding z .
    qed
  qed
qed

lemma last_ch_EOF:
  "(last_ch cfg S = EOF) =
     (\<not> (Count cfg \<noteq> 0 \<and> nat (Count cfg) < length (drop (nat (Start cfg)) S)))"
proof -
  have "uint b \<noteq> EOF" for b :: byte
  proof -
    have "0 \<le> uint b" by simp
    then show ?thesis unfolding EOF_def by linarith
  qed
  then show ?thesis by (simp add: last_ch_def)
qed

lemma blank_fill_stop:
  "\<not> (PerLine cfg \<noteq> 0 \<and> i < PerLine cfg) \<Longrightarrow> blank_fill cfg i a t = Inr (i, a, t)"
  by (subst blank_fill.simps) auto

lemma blank_fill_step:
  "PerLine cfg \<noteq> 0 \<and> i < PerLine cfg \<Longrightarrow>
     blank_fill cfg i a t =
       (case (if AscWide cfg \<noteq> 0 then asc_store a i SP else Inr a) of
          Inl e \<Rightarrow> Inl e
        | Inr a' \<Rightarrow>
            blank_fill cfg (i + 1) a'
              (t @ (if HexDump cfg \<noteq> 0 then ''  '' else []) @ group_sep cfg (i + 1)))"
  by (subst blank_fill.simps) simp

lemma dump_loop_all_skipped:
  assumes "0 \<le> adr s" "adr s + int (length S) \<le> Start cfg \<or> S = []"
  shows "\<exists>a ch rest. dump_loop cfg S s = Inr (s\<lparr>adr := a\<rparr>, ch, rest)"
  using assms
proof (induction S arbitrary: s)
  case Nil
  have "dump_loop cfg [] s = Inr (s\<lparr>adr := adr s\<rparr>, EOF, [])" by simp
  then show ?case by blast
next
  case (Cons b bs)
  show ?case
  proof (cases "Count cfg = 0 \<or> cnt s < Count cfg")
    case False
    then have "dump_loop cfg (b # bs) s = Inr (s\<lparr>adr := adr s\<rparr>, uint b, bs)" by simp
    then show ?thesis by blast
  next
    case True
    let ?s = "s\<lparr>adr := adr s + 1\<rparr>"
    from Cons.prems have sk: "Start cfg \<noteq> 0 \<and> adr s < Start cfg" by auto
    from Cons.prems have p: "0 \<le> adr ?s" "adr ?s + int (length bs) \<le> Start cfg \<or> bs = []"
      by auto
    from Cons.IH [OF p] obtain a ch rest where
      "dump_loop cfg bs ?s = Inr (?s\<lparr>adr := a\<rparr>, ch, rest)"
      by blast
    with True sk have "dump_loop cfg (b # bs) s = Inr (s\<lparr>adr := a\<rparr>, ch, rest)"
      by auto
    then show ?thesis by blast
  qed
qed

lemma end_addr_zero:
  "end_addr cfg 0 = (if EndAddr cfg \<noteq> 0 then ''00000000'' @ [NL] else [])"
proof -
  have "printf_hex True 8 0 = hexn True 8 (nat 0)"
    by (rule printf_hex_fits) simp_all
  also have "\<dots> = ''00000000''"
    by code_simp
  finally show ?thesis by (simp add: end_addr_def)
qed

subsection \<open>The empty stream\<close>

text \<open>
  Claim C6, as the code has it. When no byte is left after the start offset, for every
  configuration the loop ends with \<open>ix = 0\<close>, \<open>cnt = 0\<close> and nothing written, the flush
  of the line adds nothing, and the function returns 0 (0 bytes, end of file). The whole
  output is empty unless \<open>EndAddr\<close> is set: then it is the address line \<open>00000000\<close>.
\<close>

theorem empty_stream_output:
  assumes "drop (nat (Start cfg)) S = []"
  shows "\<exists>s ch rest. dump_loop cfg S init_state = Inr (s, ch, rest)
           \<and> ix s = 0 \<and> cnt s = 0 \<and> out s = []
           \<and> flush_line cfg s = Inr []
           \<and> dump_file cfg S = Inr (if EndAddr cfg \<noteq> 0 then ''00000000'' @ [NL] else [], 0, rest)
           \<and> bytesEmitted 0 = 0 \<and> \<not> truncated 0"
proof -
  from assms have "length S \<le> nat (Start cfg)" by simp
  have "adr init_state + int (length S) \<le> Start cfg \<or> S = []"
  proof (cases "S = []")
    case True
    then show ?thesis by simp
  next
    case False
    then have "0 < length S" by simp
    with \<open>length S \<le> nat (Start cfg)\<close> have "int (length S) \<le> Start cfg" by linarith
    then show ?thesis by (simp add: init_state_def)
  qed
  moreover have "0 \<le> adr init_state" by (simp add: init_state_def)
  ultimately obtain a ch rest where
    l: "dump_loop cfg S init_state = Inr (init_state\<lparr>adr := a\<rparr>, ch, rest)"
    using dump_loop_all_skipped by blast
  let ?s = "init_state\<lparr>adr := a\<rparr>"
  have s: "ix ?s = 0" "cnt ?s = 0" "out ?s = []"
    by (simp_all add: init_state_def)
  then have f: "flush_line cfg ?s = Inr []"
    by (simp add: flush_line_def)
  from l f s have "dump_file cfg S = Inr (end_addr cfg 0, 0, rest)"
    by (simp add: dump_file_def)
  then have d: "dump_file cfg S = Inr (if EndAddr cfg \<noteq> 0 then ''00000000'' @ [NL] else [], 0, rest)"
    by (simp only: end_addr_zero)
  have "bytesEmitted 0 = 0" "\<not> truncated 0"
    by (simp_all add: bytesEmitted_def truncated_def)
  with l s f d show ?thesis by blast
qed

theorem empty_stream_output_witness:
  "drop (nat (Start (cfg_hexdump\<lparr>Start := 3\<rparr>))) [1, 2 :: byte] = []
   \<and> (\<exists>rest. dump_file (cfg_hexdump\<lparr>Start := 3\<rparr>) [1, 2]
                = Inr (''00000000'' @ [NL], 0, rest))"
proof -
  have h: "drop (nat (Start (cfg_hexdump\<lparr>Start := 3\<rparr>))) [1, 2 :: byte] = []"
    by (simp add: cfg_hexdump_def default_config_def)
  from empty_stream_output [OF h]
  have "\<exists>rest. dump_file (cfg_hexdump\<lparr>Start := 3\<rparr>) [1, 2]
                = Inr (''00000000'' @ [NL], 0, rest)"
    by (auto simp: cfg_hexdump_def default_config_def)
  with h show ?thesis by (rule conjI)
qed

text \<open>
  Claim C6 as stated fails for a configuration with \<open>EndAddr\<close> set, as after the option
  \<open>-X\<close>: the dump of the empty input writes one line.
\<close>

theorem empty_stream_counterexample:
  "dump_file cfg_hexdump [] = Inr (''00000000'' @ [NL], 0, [])
   \<and> ''00000000'' @ [NL] \<noteq> []"
  by code_simp

subsection \<open>The line buffer\<close>

lemma asc_buf_Nil: "asc_buf [] = asc_clear"
  by (simp add: asc_buf_def asc_clear_def)

lemma asc_store_buf:
  assumes "length A < 64"
  shows "asc_store (asc_buf A) (int (length A)) c = Inr (asc_buf (A @ [c]))"
proof -
  from assms obtain k where k1: "64 - length A = Suc k"
    by (cases "64 - length A") auto
  then have k2: "63 - length A = k" by arith
  note k = k1 k2
  have "(asc_buf A)[length A := c] = asc_buf (A @ [c])"
    by (simp add: asc_buf_def k list_update_append)
  with assms show ?thesis by (simp add: asc_store_def)
qed

lemma c_str_buf:
  assumes "length A < 64" "NUL \<notin> set A"
  shows "c_str (asc_buf A) = Inr A"
proof -
  from assms(1) obtain k where k: "64 - length A = Suc k"
    by (cases "64 - length A") auto
  from assms(2) have "x \<noteq> NUL" if "x \<in> set A" for x
    using that by auto
  then have "takeWhile (\<lambda>c. c \<noteq> NUL) (A @ replicate (Suc k) NUL)
               = A @ takeWhile (\<lambda>c. c \<noteq> NUL) (replicate (Suc k) NUL)"
    by (rule takeWhile_append2)
  then have "takeWhile (\<lambda>c. c \<noteq> NUL) (A @ replicate (Suc k) NUL) = A"
    by simp
  then show ?thesis by (simp add: c_str_def asc_buf_def k)
qed

lemma NUL_not_asc_char [simp]: "NUL \<noteq> asc_char ch"
  using asc_char_not_NUL [of ch] by (rule not_sym)

lemma NUL_notin_asc_text [simp]: "NUL \<notin> set (asc_text bs)"
  by (auto simp: asc_text_def)

lemma asc_text_Nil [simp]: "asc_text [] = []"
  by (simp add: asc_text_def)

lemma asc_text_append: "asc_text (xs @ ys) = asc_text xs @ asc_text ys"
  by (simp add: asc_text_def)

lemma length_asc_text [simp]: "length (asc_text bs) = length bs"
  by (simp add: asc_text_def)

lemma hex_cells_append:
  "hex_cells cfg i (xs @ ys) = hex_cells cfg i xs @ hex_cells cfg (i + int (length xs)) ys"
  by (induction xs arbitrary: i) (simp_all add: add.assoc)

subsection \<open>One pass of the loop body, inside a line and at its end\<close>

lemma dump_byte_inside:
  assumes "PerLine cfg = 0 \<or> int i + 1 < PerLine cfg"
    and "Ascii cfg \<noteq> 0 \<longrightarrow> length A = i \<and> i < 64"
    and "a < INT_MAX" "c < INT_MAX" "int i < INT_MAX"
  shows "dump_byte cfg (uint b) \<lparr>adr = a, cnt = c, ix = int i, asc = asc_buf A, out = t\<rparr> =
           Inr \<lparr>adr = a + 1, cnt = c + 1, ix = int (Suc i),
                asc = asc_buf (if Ascii cfg \<noteq> 0 then A @ asc_text [b] else A),
                out = t @ (if i = 0 then addr_col cfg a else []) @ hex_cells cfg (int i) [b]\<rparr>"
proof (cases "Ascii cfg = 0")
  case True
  with assms(1,3-5) show ?thesis
    by (auto simp: dump_byte_def line_start_def addr_col_def incr_ok)
next
  case False
  with assms(2) have "asc_store (asc_buf A) (int i) (asc_char (uint b)) = Inr (asc_buf (A @ [asc_char (uint b)]))"
    using asc_store_buf [of A] by auto
  with False assms(1,3-5) show ?thesis
    by (auto simp: dump_byte_def line_start_def addr_col_def asc_text_def incr_ok)
qed

lemma dump_byte_wrap:
  assumes "PerLine cfg \<noteq> 0" "PerLine cfg \<le> int i + 1"
    and "Ascii cfg \<noteq> 0 \<longrightarrow> length A = i \<and> i < 63 \<and> NUL \<notin> set A"
    and "a < INT_MAX" "c < INT_MAX" "int i < INT_MAX"
  shows "dump_byte cfg (uint b) \<lparr>adr = a, cnt = c, ix = int i, asc = asc_buf A, out = t\<rparr> =
           Inr \<lparr>adr = a + 1, cnt = c + 1, ix = 0, asc = asc_clear,
                out = t @ (if i = 0 then addr_col cfg a else []) @ hex_cells cfg (int i) [b]
                      @ (if Ascii cfg \<noteq> 0
                         then gutter_sp cfg @ ''|'' @ A @ asc_text [b] @ ''|'' else [])
                      @ [NL]\<rparr>"
proof (cases "Ascii cfg = 0")
  case True
  with assms(1,2,4-6) show ?thesis
    by (auto simp: dump_byte_def line_start_def addr_col_def wrap_text_def incr_ok)
next
  case False
  with assms(3) have l: "length A = i" "i < 63" "NUL \<notin> set A" by auto
  then have st: "asc_store (asc_buf A) (int i) (asc_char (uint b)) = Inr (asc_buf (A @ [asc_char (uint b)]))"
    using asc_store_buf [of A] by auto
  from l have "c_str (asc_buf (A @ [asc_char (uint b)])) = Inr (A @ [asc_char (uint b)])"
    by (intro c_str_buf) auto
  with st False assms(1,2,4-6) show ?thesis
    by (auto simp: dump_byte_def line_start_def addr_col_def wrap_text_def gutter_def asc_text_def
        incr_ok)
qed

subsection \<open>Whole lines\<close>

lemma put_bytes_append:
  "put_bytes cfg (xs @ ys) s =
     (case put_bytes cfg xs s of Inl e \<Rightarrow> Inl e | Inr s' \<Rightarrow> put_bytes cfg ys s')"
  by (induction xs arbitrary: s) (simp_all split: sum.splits)

lemma put_bytes_inside:
  assumes "PerLine cfg = 0 \<or> int i + int (length bs) < PerLine cfg"
    and "Ascii cfg \<noteq> 0 \<longrightarrow> length A = i \<and> i + length bs \<le> 64"
    and "a + int (length bs) \<le> INT_MAX" "c + int (length bs) \<le> INT_MAX"
    and "int i + int (length bs) \<le> INT_MAX"
  shows "put_bytes cfg bs \<lparr>adr = a, cnt = c, ix = int i, asc = asc_buf A, out = t\<rparr> =
           Inr \<lparr>adr = a + int (length bs), cnt = c + int (length bs),
                ix = int (i + length bs),
                asc = asc_buf (if Ascii cfg \<noteq> 0 then A @ asc_text bs else A),
                out = t @ (if i = 0 \<and> bs \<noteq> [] then addr_col cfg a else [])
                      @ hex_cells cfg (int i) bs\<rparr>"
  using assms
proof (induction bs arbitrary: a c i A t)
  case Nil
  then show ?case by (simp add: asc_text_def)
next
  case (Cons b bs)
  let ?A = "if Ascii cfg \<noteq> 0 then A @ asc_text [b] else A"
  let ?t = "t @ (if i = 0 then addr_col cfg a else []) @ hex_cells cfg (int i) [b]"
  from Cons.prems have 1: "PerLine cfg = 0 \<or> int i + 1 < PerLine cfg"
    and 2: "Ascii cfg \<noteq> 0 \<longrightarrow> length A = i \<and> i < 64"
    by auto
  from Cons.prems(3-5) have r: "a < INT_MAX" "c < INT_MAX" "int i < INT_MAX"
    by simp_all
  note step = dump_byte_inside [OF 1 2 r, of b t]
  from Cons.prems have 3: "PerLine cfg = 0 \<or> int (Suc i) + int (length bs) < PerLine cfg"
    and 4: "Ascii cfg \<noteq> 0 \<longrightarrow> length ?A = Suc i \<and> Suc i + length bs \<le> 64"
    by auto
  from Cons.prems(3-5) have r': "a + 1 + int (length bs) \<le> INT_MAX"
    "c + 1 + int (length bs) \<le> INT_MAX" "int (Suc i) + int (length bs) \<le> INT_MAX"
    by simp_all
  note rest = Cons.IH [OF 3 4 r', of ?t]
  have "put_bytes cfg (b # bs) \<lparr>adr = a, cnt = c, ix = int i, asc = asc_buf A, out = t\<rparr> =
          (case dump_byte cfg (uint b) \<lparr>adr = a, cnt = c, ix = int i, asc = asc_buf A, out = t\<rparr> of
             Inl e \<Rightarrow> Inl e | Inr s' \<Rightarrow> put_bytes cfg bs s')"
    by simp
  also have "\<dots> = put_bytes cfg bs
                  \<lparr>adr = a + 1, cnt = c + 1, ix = int (Suc i), asc = asc_buf ?A, out = ?t\<rparr>"
    by (simp only: step sum.case)
  also note rest
  finally have f: "put_bytes cfg (b # bs) \<lparr>adr = a, cnt = c, ix = int i, asc = asc_buf A, out = t\<rparr> =
      Inr \<lparr>adr = a + 1 + int (length bs), cnt = c + 1 + int (length bs),
           ix = int (Suc i + length bs),
           asc = asc_buf (if Ascii cfg \<noteq> 0 then ?A @ asc_text bs else ?A),
           out = ?t @ (if Suc i = 0 \<and> bs \<noteq> [] then addr_col cfg (a + 1) else [])
                 @ hex_cells cfg (int (Suc i)) bs\<rparr>" .
  show ?case
    unfolding f by (simp add: asc_text_def algebra_simps)
qed

lemma put_bytes_full_line:
  assumes "PerLine cfg = int (length bs)" "bs \<noteq> []"
    and "Ascii cfg \<noteq> 0 \<longrightarrow> length bs < 64"
    and "a + int (length bs) \<le> INT_MAX" "c + int (length bs) \<le> INT_MAX"
    and "int (length bs) \<le> INT_MAX"
  shows "put_bytes cfg bs \<lparr>adr = a, cnt = c, ix = 0, asc = asc_clear, out = t\<rparr> =
           Inr \<lparr>adr = a + int (length bs), cnt = c + int (length bs), ix = 0,
                asc = asc_clear, out = t @ full_line cfg a bs\<rparr>"
proof -
  from assms(2) obtain xs x where bs: "bs = xs @ [x]"
    by (cases bs rule: rev_cases) auto
  let ?A = "if Ascii cfg \<noteq> 0 then [] @ asc_text xs else []"
  let ?t = "t @ (if (0::nat) = 0 \<and> xs \<noteq> [] then addr_col cfg a else []) @ hex_cells cfg (int 0) xs"
  from assms bs have 1: "PerLine cfg = 0 \<or> int 0 + int (length xs) < PerLine cfg"
    and 2: "Ascii cfg \<noteq> 0 \<longrightarrow> length ([]::string) = 0 \<and> 0 + length xs \<le> 64"
    by auto
  from assms(4-6) bs have r: "a + int (length xs) \<le> INT_MAX" "c + int (length xs) \<le> INT_MAX"
    "int 0 + int (length xs) \<le> INT_MAX"
    by simp_all
  have pre: "put_bytes cfg xs \<lparr>adr = a, cnt = c, ix = 0, asc = asc_clear, out = t\<rparr> =
          Inr \<lparr>adr = a + int (length xs), cnt = c + int (length xs), ix = int (length xs),
               asc = asc_buf ?A, out = ?t\<rparr>"
    using put_bytes_inside [OF 1 2 r, of t] by (simp add: asc_buf_Nil)
  from assms bs have 3: "PerLine cfg \<noteq> 0" "PerLine cfg \<le> int (length xs) + 1"
    and 4: "Ascii cfg \<noteq> 0 \<longrightarrow> length ?A = length xs \<and> length xs < 63 \<and> NUL \<notin> set ?A"
    by auto
  from assms(4-6) bs have r': "a + int (length xs) < INT_MAX" "c + int (length xs) < INT_MAX"
    "int (length xs) < INT_MAX"
    by simp_all
  note last = dump_byte_wrap [OF 3 4 r', of x ?t]
  have "put_bytes cfg bs \<lparr>adr = a, cnt = c, ix = 0, asc = asc_clear, out = t\<rparr> =
          (case put_bytes cfg xs \<lparr>adr = a, cnt = c, ix = 0, asc = asc_clear, out = t\<rparr> of
             Inl e \<Rightarrow> Inl e | Inr s' \<Rightarrow> put_bytes cfg [x] s')"
    unfolding bs by (rule put_bytes_append)
  also have "\<dots> = put_bytes cfg [x] \<lparr>adr = a + int (length xs), cnt = c + int (length xs),
                              ix = int (length xs), asc = asc_buf ?A, out = ?t\<rparr>"
    by (simp only: pre sum.case)
  also have "\<dots> = (case dump_byte cfg (uint x) \<lparr>adr = a + int (length xs), cnt = c + int (length xs),
                              ix = int (length xs), asc = asc_buf ?A, out = ?t\<rparr> of
                      Inl e \<Rightarrow> Inl e | Inr s' \<Rightarrow> Inr s')"
    by (simp split: sum.splits)
  also have "\<dots> = Inr \<lparr>adr = a + int (length xs) + 1, cnt = c + int (length xs) + 1, ix = 0,
                asc = asc_clear,
                out = ?t @ (if length xs = 0 then addr_col cfg (a + int (length xs)) else [])
                      @ hex_cells cfg (int (length xs)) [x]
                      @ (if Ascii cfg \<noteq> 0
                         then gutter_sp cfg @ ''|'' @ ?A @ asc_text [x] @ ''|'' else [])
                      @ [NL]\<rparr>"
    by (simp only: last sum.case)
  finally have f: "put_bytes cfg bs \<lparr>adr = a, cnt = c, ix = 0, asc = asc_clear, out = t\<rparr> =
      Inr \<lparr>adr = a + int (length xs) + 1, cnt = c + int (length xs) + 1, ix = 0,
                asc = asc_clear,
                out = ?t @ (if length xs = 0 then addr_col cfg (a + int (length xs)) else [])
                      @ hex_cells cfg (int (length xs)) [x]
                      @ (if Ascii cfg \<noteq> 0
                         then gutter_sp cfg @ ''|'' @ ?A @ asc_text [x] @ ''|'' else [])
                      @ [NL]\<rparr>" .
  show ?thesis
    unfolding f unfolding bs
    by (simp add: full_line_def hex_cells_append asc_text_append add.assoc)
qed

lemma full_lines_Suc:
  "concat (map (\<lambda>j. full_line cfg (a + int (j * N)) (take N (drop (j * N) E))) [0..<Suc q]) =
     full_line cfg a (take N E)
     @ concat (map (\<lambda>j. full_line cfg (a + int N + int (j * N)) (take N (drop (j * N) (drop N E))))
                 [0..<q])"
proof -
  have "map (\<lambda>j. full_line cfg (a + int (j * N)) (take N (drop (j * N) E))) [0..<Suc q] =
          full_line cfg (a + int (0 * N)) (take N (drop (0 * N) E))
          # map (\<lambda>j. full_line cfg (a + int (Suc j * N)) (take N (drop (Suc j * N) E))) [0..<q]"
    by (rule map_upt_Suc)
  moreover have "full_line cfg (a + int (Suc j * N)) (take N (drop (Suc j * N) E)) =
      full_line cfg (a + int N + int (j * N)) (take N (drop (j * N) (drop N E)))" for j
    by (simp add: add.commute add.assoc)
  ultimately show ?thesis by simp
qed

lemma put_bytes_lines:
  assumes "PerLine cfg = int N" "0 < N" "Ascii cfg \<noteq> 0 \<longrightarrow> N < 64"
    and "length E = q * N + r" "r < N"
    and "a + int (length E) \<le> INT_MAX" "c + int (length E) \<le> INT_MAX"
    and "int (length E) \<le> INT_MAX"
  shows "put_bytes cfg E \<lparr>adr = a, cnt = c, ix = 0, asc = asc_clear, out = t\<rparr> =
           Inr \<lparr>adr = a + int (length E), cnt = c + int (length E), ix = int r,
                asc = asc_buf (if Ascii cfg \<noteq> 0 then asc_text (drop (q * N) E) else []),
                out = t @ concat (map (\<lambda>j. full_line cfg (a + int (j * N)) (take N (drop (j * N) E)))
                                   [0..<q])
                      @ (if r = 0 then []
                         else addr_col cfg (a + int (q * N)) @ hex_cells cfg 0 (drop (q * N) E))\<rparr>"
  using assms(4,6-8)
proof (induction q arbitrary: E a c t)
  case 0
  then have l: "length E = r" by simp
  with assms(1-3,5) have 1: "PerLine cfg = 0 \<or> int 0 + int (length E) < PerLine cfg"
    and 2: "Ascii cfg \<noteq> 0 \<longrightarrow> length ([]::string) = 0 \<and> 0 + length E \<le> 64"
    by auto
  from "0.prems"(4) have 3: "int 0 + int (length E) \<le> INT_MAX" by simp
  from put_bytes_inside [OF 1 2 "0.prems"(2,3) 3, of t] l show ?case
    by (auto simp: asc_buf_Nil)
next
  case (Suc q)
  let ?L = "take N E" and ?R = "drop N E"
  from Suc.prems(1) have lL: "length ?L = N" and lR: "length ?R = q * N + r"
    by simp_all
  from lL assms(1-3) have 1: "PerLine cfg = int (length ?L)" "?L \<noteq> []"
    "Ascii cfg \<noteq> 0 \<longrightarrow> length ?L < 64"
    by auto
  from Suc.prems have le: "N \<le> length E" by simp
  from Suc.prems(2-4) le have rL: "a + int (length ?L) \<le> INT_MAX" "c + int (length ?L) \<le> INT_MAX"
    "int (length ?L) \<le> INT_MAX"
    unfolding lL by simp_all
  from Suc.prems(2-4) le have rR: "a + int N + int (length ?R) \<le> INT_MAX"
    "c + int N + int (length ?R) \<le> INT_MAX" "int (length ?R) \<le> INT_MAX"
    by simp_all
  note first = put_bytes_full_line [OF 1 rL, of t, unfolded lL]
  note rest = Suc.IH [OF lR rR, of "t @ full_line cfg a ?L"]
  have "put_bytes cfg E \<lparr>adr = a, cnt = c, ix = 0, asc = asc_clear, out = t\<rparr> =
          put_bytes cfg (?L @ ?R) \<lparr>adr = a, cnt = c, ix = 0, asc = asc_clear, out = t\<rparr>"
    by simp
  also have "\<dots> = (case put_bytes cfg ?L \<lparr>adr = a, cnt = c, ix = 0, asc = asc_clear, out = t\<rparr> of
                      Inl e \<Rightarrow> Inl e | Inr s' \<Rightarrow> put_bytes cfg ?R s')"
    by (rule put_bytes_append)
  also have "\<dots> = put_bytes cfg ?R \<lparr>adr = a + int N, cnt = c + int N, ix = 0, asc = asc_clear,
                                  out = t @ full_line cfg a ?L\<rparr>"
    by (simp only: first sum.case)
  also note rest
  finally have f: "put_bytes cfg E \<lparr>adr = a, cnt = c, ix = 0, asc = asc_clear, out = t\<rparr> =
      Inr \<lparr>adr = a + int N + int (length ?R), cnt = c + int N + int (length ?R), ix = int r,
           asc = asc_buf (if Ascii cfg \<noteq> 0 then asc_text (drop (q * N) ?R) else []),
           out = (t @ full_line cfg a ?L)
                 @ concat (map (\<lambda>j. full_line cfg (a + int N + int (j * N)) (take N (drop (j * N) ?R)))
                            [0..<q])
                 @ (if r = 0 then []
                    else addr_col cfg (a + int N + int (q * N)) @ hex_cells cfg 0 (drop (q * N) ?R))\<rparr>" .
  have d: "drop (q * N) ?R = drop (Suc q * N) E"
    by (simp add: add.commute)
  have n: "a + int N + int (length ?R) = a + int (length E)"
    "c + int N + int (length ?R) = c + int (length E)"
    "a + int N + int (q * N) = a + int (Suc q * N)"
    using Suc.prems(1) by simp_all
  show ?case
    unfolding f full_lines_Suc d n by simp
qed

subsection \<open>The flush of a short line\<close>

lemma blank_fill_cells:
  assumes "AscWide cfg \<noteq> 0 \<longrightarrow> length A = i \<and> nat (PerLine cfg) \<le> 64"
    and "m = nat (PerLine cfg) - i"
  shows "blank_fill cfg (int i) (asc_buf A) t =
           Inr (int (i + m), asc_buf (if AscWide cfg \<noteq> 0 then A @ replicate m SP else A),
                t @ blank_cells cfg (int i) m)"
  using assms
proof (induction m arbitrary: i A t)
  case 0
  then have "\<not> (PerLine cfg \<noteq> 0 \<and> int i < PerLine cfg)" by auto
  from blank_fill_stop [OF this] show ?case by simp
next
  case (Suc m)
  then have go: "PerLine cfg \<noteq> 0 \<and> int i < PerLine cfg" by auto
  let ?A = "if AscWide cfg \<noteq> 0 then A @ [SP] else A"
  let ?t = "t @ (if HexDump cfg \<noteq> 0 then ''  '' else []) @ group_sep cfg (int i + 1)"
  have st: "(if AscWide cfg \<noteq> 0 then asc_store (asc_buf A) (int i) SP else Inr (asc_buf A))
              = Inr (asc_buf ?A)"
  proof (cases "AscWide cfg = 0")
    case True
    then show ?thesis by simp
  next
    case False
    with Suc.prems have "length A = i" "length A < 64" by auto
    with False asc_store_buf [of A SP] show ?thesis by simp
  qed
  from Suc.prems have 1: "AscWide cfg \<noteq> 0 \<longrightarrow> length ?A = Suc i \<and> nat (PerLine cfg) \<le> 64"
    and 2: "m = nat (PerLine cfg) - Suc i"
    by auto
  note rest = Suc.IH [OF 1 2, of ?t]
  have "blank_fill cfg (int i) (asc_buf A) t = blank_fill cfg (int i + 1) (asc_buf ?A) ?t"
    unfolding blank_fill_step [OF go, of "asc_buf A" t] st by simp
  also have "\<dots> = blank_fill cfg (int (Suc i)) (asc_buf ?A) ?t"
    by (simp add: add.commute)
  also note rest
  finally have f: "blank_fill cfg (int i) (asc_buf A) t =
      Inr (int (Suc i + m), asc_buf (if AscWide cfg \<noteq> 0 then ?A @ replicate m SP else ?A),
           ?t @ blank_cells cfg (int (Suc i)) m)" .
  show ?case
    unfolding f by (simp add: add.commute)
qed

lemma flush_line_partial:
  assumes "P \<noteq> []"
    and "Ascii cfg \<noteq> 0 \<longrightarrow> length P < 64 \<and> (AscWide cfg \<noteq> 0 \<longrightarrow> nat (PerLine cfg) < 64)"
  shows "flush_line cfg \<lparr>adr = a', cnt = c', ix = int (length P),
                         asc = asc_buf (if Ascii cfg \<noteq> 0 then asc_text P else []),
                         out = t @ addr_col cfg a @ hex_cells cfg 0 P\<rparr> =
           Inr (t @ part_line cfg a P)"
proof (cases "Ascii cfg = 0")
  case True
  with assms(1) show ?thesis
    by (simp add: flush_line_def part_line_def)
next
  case False
  let ?m = "nat (PerLine cfg) - length P"
  let ?A = "if AscWide cfg \<noteq> 0 then asc_text P @ replicate ?m SP else asc_text P"
  from False assms(2) have 1: "AscWide cfg \<noteq> 0 \<longrightarrow> length (asc_text P) = length P \<and> nat (PerLine cfg) \<le> 64"
    by auto
  have b: "blank_fill cfg (int (length P)) (asc_buf (asc_text P)) (t @ addr_col cfg a @ hex_cells cfg 0 P) =
      Inr (int (length P + ?m), asc_buf ?A,
           (t @ addr_col cfg a @ hex_cells cfg 0 P) @ blank_cells cfg (int (length P)) ?m)"
    by (rule blank_fill_cells [OF 1 refl])
  from False assms(2) have "length ?A < 64" by auto
  moreover have "NUL \<notin> set ?A" by auto
  ultimately have c: "c_str (asc_buf ?A) = Inr ?A" by (rule c_str_buf)
  from False assms(1) show ?thesis
    by (simp add: flush_line_def b gutter_def c part_line_def)
qed

subsection \<open>Characters of a line\<close>

lemma hexn_column_chars: "set (hexn lo k v) \<subseteq> column_chars"
  unfolding column_chars_def using set_hexn [of lo k v] by (rule le_supI1)

lemma printf_hex_column_chars: "set (printf_hex lo w v) \<subseteq> column_chars"
  unfolding printf_hex_def by (rule hexn_column_chars)

lemma SP_column_chars [simp]: "SP \<in> column_chars"
  by (simp add: column_chars_def)

lemma fmt_addr_column_chars: "set (fmt_addr cfg a) \<subseteq> column_chars"
proof -
  have p: "x \<in> column_chars" if "x \<in> set (printf_hex (LoCase cfg \<noteq> 0) w a)" for w x
    using that printf_hex_column_chars by blast
  show ?thesis
    unfolding fmt_addr_def Let_def by (auto dest: p)
qed


lemma group_sep_column_chars: "set (group_sep cfg i) \<subseteq> column_chars"
  by (auto simp: group_sep_def)

lemma hex_pair_column_chars: "set (hex_pair cfg ch) \<subseteq> column_chars"
  by (cases "HexDump cfg = 0") (simp_all add: hex_pair_def printf_hex_column_chars)

lemma hex_cells_column_chars: "set (hex_cells cfg i bs) \<subseteq> column_chars"
proof (induction bs arbitrary: i)
  case Nil
  show ?case by simp
next
  case (Cons b bs)
  from hex_pair_column_chars [of cfg "uint b"] group_sep_column_chars [of cfg "i + 1"]
    Cons [of "i + 1"]
  show ?case by simp
qed

lemma blank_cells_column_chars: "set (blank_cells cfg i m) \<subseteq> column_chars"
proof (induction m arbitrary: i)
  case 0
  show ?case by simp
next
  case (Suc m)
  from group_sep_column_chars [of cfg "i + 1"] Suc [of "i + 1"]
  show ?case by (cases "HexDump cfg = 0") simp_all
qed

lemma gutter_sp_cases: "gutter_sp cfg = [] \<or> gutter_sp cfg = '' '' \<or> gutter_sp cfg = ''  ''"
  by (simp add: gutter_sp_def Let_def)

lemma gutter_sp_column_chars: "set (gutter_sp cfg) \<subseteq> column_chars"
  using gutter_sp_cases [of cfg] by auto

lemma column_chars_plain [simp]:
  "NL \<notin> column_chars" "CHR ''|'' \<notin> column_chars" "NUL \<notin> column_chars"
  by (simp_all add: column_chars_def)

lemma asc_char_not_NL [simp]: "asc_char ch \<noteq> NL"
proof -
  have "char_of ch \<noteq> NL" if "32 \<le> ch" "ch \<le> 126"
  proof
    assume "char_of ch = NL"
    then have "(of_char (char_of ch) :: int) = of_char NL" by simp
    then have "ch mod 256 = 10" by simp
    with that show False by simp
  qed
  then show ?thesis by (auto simp: asc_char_def)
qed

lemma NL_not_asc_char [simp]: "NL \<noteq> asc_char ch"
  using asc_char_not_NL [of ch] by (rule not_sym)

lemma NL_notin_asc_text [simp]: "NL \<notin> set (asc_text bs)"
  by (auto simp: asc_text_def)

lemma newlines_Nil [simp]: "newlines [] = 0"
  by (simp add: newlines_def)

lemma newlines_Cons [simp]: "newlines (c # cs) = (if c = NL then 1 else 0) + newlines cs"
  by (simp add: newlines_def)

lemma newlines_append [simp]: "newlines (xs @ ys) = newlines xs + newlines ys"
  by (simp add: newlines_def)


lemma newlines_asc_text [simp]: "newlines (asc_text bs) = 0"
proof -
  have "\<forall>c \<in> set (asc_text bs). c \<noteq> NL"
    using NL_notin_asc_text [of bs] by auto
  then show ?thesis by (simp add: newlines_def)
qed

lemma newlines_replicate_SP [simp]: "newlines (replicate m SP) = 0"
  by (simp add: newlines_def)





subsection \<open>The lines of a dump\<close>

lemma dump_lines_Nil [simp]: "dump_lines cfg N a [] = []"
  by (simp add: dump_lines_def)

lemma emitted_start:
  assumes "0 \<le> Start cfg" "emitted cfg S \<noteq> []"
  shows "min (Start cfg) (int (length S)) = Start cfg"
proof -
  from assms(2) have "drop (nat (Start cfg)) S \<noteq> []"
    by (auto simp: emitted_def split: if_splits)
  then have "nat (Start cfg) < length S" by simp
  with assms(1) show ?thesis by simp
qed

lemma put_bytes_dump_lines:
  assumes "PerLine cfg = int N" "0 < N" "Ascii cfg \<noteq> 0 \<longrightarrow> N < 64"
    and "a + int (length E) \<le> INT_MAX" "int (length E) \<le> INT_MAX"
  shows "\<exists>s. put_bytes cfg E (init_state\<lparr>adr := a\<rparr>) = Inr s
           \<and> ix s = int (length E mod N) \<and> cnt s = int (length E)
           \<and> (length E mod N = 0 \<longrightarrow> flush_line cfg s = Inr (out s))
           \<and> flush_line cfg s = Inr (dump_lines cfg N a E)"
proof -
  define q where "q = length E div N"
  define r where "r = length E mod N"
  define P where "P = drop (q * N) E"
  define t where
    "t = concat (map (\<lambda>j. full_line cfg (a + int (j * N)) (take N (drop (j * N) E))) [0..<q])"
  define u where "u = (if r = 0 then [] else addr_col cfg (a + int (q * N)) @ hex_cells cfg 0 P)"
  define s where "s = \<lparr>adr = a + int (length E), cnt = int (length E), ix = int r,
            asc = asc_buf (if Ascii cfg \<noteq> 0 then asc_text P else []), out = t @ u\<rparr>"
  have len: "length E = q * N + r" by (simp add: q_def r_def)
  have r: "r < N" using assms(2) by (simp add: r_def)
  have lP: "length P = r"
    unfolding P_def q_def r_def by (simp add: minus_div_mult_eq_mod)
  have i: "init_state\<lparr>adr := a\<rparr> = \<lparr>adr = a, cnt = 0, ix = 0, asc = asc_clear, out = []\<rparr>"
    by (simp add: init_state_def)
  have p: "put_bytes cfg E (init_state\<lparr>adr := a\<rparr>) = Inr s"
    unfolding i s_def u_def t_def P_def
    using put_bytes_lines [OF assms(1-3) len r assms(4) _ assms(5), of 0 "[]"] assms(5) by simp
  have f0: "flush_line cfg s = Inr (out s)" if "r = 0"
    using that by (simp add: flush_line_def s_def)
  have dl: "dump_lines cfg N a E = t @ (if r = 0 then [] else part_line cfg (a + int (q * N)) P)"
    by (simp add: dump_lines_def t_def q_def r_def P_def)
  have f: "flush_line cfg s = Inr (dump_lines cfg N a E)"
  proof (cases "r = 0")
    case True
    with f0 have "flush_line cfg s = Inr (t @ u)" by (simp add: s_def)
    with True show ?thesis by (simp add: dl u_def)
  next
    case False
    with lP have ne: "P \<noteq> []" by auto
    have fit: "Ascii cfg \<noteq> 0 \<longrightarrow>
        length P < 64 \<and> (AscWide cfg \<noteq> 0 \<longrightarrow> nat (PerLine cfg) < 64)"
    proof (intro impI conjI)
      assume "Ascii cfg \<noteq> 0"
      with assms(3) have n: "N < 64" by simp
      with r lP show "length P < 64" by simp
      from n assms(1) show "nat (PerLine cfg) < 64" by simp
    qed
    have "flush_line cfg \<lparr>adr = a + int (length E), cnt = int (length E), ix = int (length P),
                         asc = asc_buf (if Ascii cfg \<noteq> 0 then asc_text P else []),
                         out = t @ addr_col cfg (a + int (q * N)) @ hex_cells cfg 0 P\<rparr> =
           Inr (t @ part_line cfg (a + int (q * N)) P)"
      by (rule flush_line_partial [OF ne fit])
    moreover from False have "u = addr_col cfg (a + int (q * N)) @ hex_cells cfg 0 P"
      by (simp add: u_def)
    ultimately have "flush_line cfg s = Inr (t @ part_line cfg (a + int (q * N)) P)"
      unfolding s_def lP by simp
    with False show ?thesis by (simp add: dl)
  qed
  have ic: "ix s = int (length E mod N)" "cnt s = int (length E)"
    by (simp_all add: s_def r_def)
  have f0': "length E mod N = 0 \<longrightarrow> flush_line cfg s = Inr (out s)"
    using f0 by (simp add: r_def)
  show ?thesis
    by (rule exI [of _ s]) (intro conjI, fact p, fact ic(1), fact ic(2), fact f0', fact f)
qed

lemma part_line_continuous:
  "PerLine cfg = 0 \<Longrightarrow> part_line cfg a E = full_line cfg a E"
  by (simp add: part_line_def full_line_def)

lemma put_bytes_continuous:
  assumes "PerLine cfg = 0" "Ascii cfg \<noteq> 0 \<longrightarrow> length E < 64"
    and "a + int (length E) \<le> INT_MAX" "int (length E) \<le> INT_MAX"
  shows "\<exists>s. put_bytes cfg E (init_state\<lparr>adr := a\<rparr>) = Inr s
           \<and> ix s = int (length E) \<and> cnt s = int (length E)
           \<and> flush_line cfg s = Inr (if E = [] then [] else full_line cfg a E)"
proof -
  define s where "s = \<lparr>adr = a + int (length E), cnt = 0 + int (length E), ix = int (0 + length E),
                asc = asc_buf (if Ascii cfg \<noteq> 0 then [] @ asc_text E else []),
                out = [] @ (if (0::nat) = 0 \<and> E \<noteq> [] then addr_col cfg a else [])
                      @ hex_cells cfg (int 0) E\<rparr>"
  have i: "init_state\<lparr>adr := a\<rparr> = \<lparr>adr = a, cnt = 0, ix = int 0, asc = asc_buf [], out = []\<rparr>"
    by (simp add: init_state_def asc_buf_Nil)
  from assms(1) have 1: "PerLine cfg = 0 \<or> int 0 + int (length E) < PerLine cfg" by simp
  from assms(2) have 2: "Ascii cfg \<noteq> 0 \<longrightarrow> length ([]::string) = 0 \<and> 0 + length E \<le> 64"
    by auto
  from assms(4) have 3: "0 + int (length E) \<le> INT_MAX" "int 0 + int (length E) \<le> INT_MAX"
    by simp_all
  have p: "put_bytes cfg E (init_state\<lparr>adr := a\<rparr>) = Inr s"
    unfolding i s_def by (rule put_bytes_inside [OF 1 2 assms(3) 3])
  have ix: "ix s = int (length E)" and c: "cnt s = int (length E)"
    by (simp_all add: s_def)
  have f: "flush_line cfg s = Inr (if E = [] then [] else full_line cfg a E)"
  proof (cases "E = []")
    case True
    then show ?thesis by (simp add: flush_line_def s_def)
  next
    case False
    from assms(1,2) have fit: "Ascii cfg \<noteq> 0 \<longrightarrow>
        length E < 64 \<and> (AscWide cfg \<noteq> 0 \<longrightarrow> nat (PerLine cfg) < 64)"
      by simp
    have "flush_line cfg \<lparr>adr = a + int (length E), cnt = 0 + int (length E), ix = int (length E),
                         asc = asc_buf (if Ascii cfg \<noteq> 0 then asc_text E else []),
                         out = [] @ addr_col cfg a @ hex_cells cfg 0 E\<rparr> =
           Inr ([] @ part_line cfg a E)"
      by (rule flush_line_partial [OF False fit])
    with False show ?thesis
      by (cases "Ascii cfg = 0") (simp_all add: s_def part_line_continuous [OF assms(1)])
  qed
  show ?thesis
    by (rule exI [of _ s]) (intro conjI, fact p, fact ix, fact c, fact f)
qed

lemma dump_file_lines:
  assumes "PerLine cfg = int N" "0 < N" "0 \<le> Start cfg" "0 \<le> Count cfg"
    and "Ascii cfg \<noteq> 0 \<longrightarrow> N < 64"
    and "Start cfg + int (length (emitted cfg S)) \<le> INT_MAX"
  shows "(\<exists>s. dump_loop cfg S init_state = Inr (s, last_ch cfg S, unread cfg S)
            \<and> ix s = int (length (emitted cfg S) mod N)
            \<and> (length (emitted cfg S) mod N = 0 \<longrightarrow> flush_line cfg s = Inr (out s)))
       \<and> dump_file cfg S =
             Inr (dump_lines cfg N (Start cfg) (emitted cfg S)
                    @ end_addr cfg (int (length (emitted cfg S))),
                  if last_ch cfg S = EOF then int (length (emitted cfg S))
                  else - int (length (emitted cfg S)),
                  unread cfg S)"
proof -
  let ?E = "emitted cfg S"
  let ?a = "min (Start cfg) (int (length S))"
  from assms(3,6) have r: "?a + int (length ?E) \<le> INT_MAX" "int (length ?E) \<le> INT_MAX"
    by simp_all
  from put_bytes_dump_lines [OF assms(1,2,5) r] obtain s where
    all: "put_bytes cfg ?E (init_state\<lparr>adr := ?a\<rparr>) = Inr s
        \<and> ix s = int (length ?E mod N) \<and> cnt s = int (length ?E)
        \<and> (length ?E mod N = 0 \<longrightarrow> flush_line cfg s = Inr (out s))
        \<and> flush_line cfg s = Inr (dump_lines cfg N ?a ?E)" ..
  from all have p: "put_bytes cfg ?E (init_state\<lparr>adr := ?a\<rparr>) = Inr s"
    by (rule conjunct1)
  from all have i: "ix s = int (length ?E mod N)"
    by (elim conjE)
  from all have c: "cnt s = int (length ?E)"
    by (elim conjE)
  from all have f0: "length ?E mod N = 0 \<longrightarrow> flush_line cfg s = Inr (out s)"
    by (elim conjE)
  from all have f: "flush_line cfg s = Inr (dump_lines cfg N ?a ?E)"
    by (elim conjE)
  have a: "dump_lines cfg N ?a ?E = dump_lines cfg N (Start cfg) ?E"
  proof (cases "?E = []")
    case True
    then show ?thesis by simp
  next
    case False
    with emitted_start [OF assms(3)] show ?thesis by simp
  qed
  have l: "dump_loop cfg S init_state = Inr (s, last_ch cfg S, unread cfg S)"
    using dump_loop_init [OF assms(3,4), of S] by (simp only: p sum.case)
  have "dump_file cfg S =
          Inr (dump_lines cfg N ?a ?E @ end_addr cfg (cnt s),
               if last_ch cfg S = EOF then cnt s else - cnt s, unread cfg S)"
    unfolding dump_file_def by (simp only: l f sum.case prod.case)
  then have d: "dump_file cfg S =
             Inr (dump_lines cfg N (Start cfg) ?E @ end_addr cfg (int (length ?E)),
                  if last_ch cfg S = EOF then int (length ?E) else - int (length ?E),
                  unread cfg S)"
    unfolding a c .
  have A: "\<exists>s. dump_loop cfg S init_state = Inr (s, last_ch cfg S, unread cfg S)
            \<and> ix s = int (length ?E mod N)
            \<and> (length ?E mod N = 0 \<longrightarrow> flush_line cfg s = Inr (out s))"
    by (rule exI [of _ s]) (intro conjI, fact l, fact i, fact f0)
  show ?thesis
    by (intro conjI) (fact A, fact d)
qed

lemma dump_file_continuous:
  assumes "PerLine cfg = 0" "0 \<le> Start cfg" "0 \<le> Count cfg"
    and "Ascii cfg \<noteq> 0 \<longrightarrow> length (emitted cfg S) < 64"
    and "Start cfg + int (length (emitted cfg S)) \<le> INT_MAX"
  shows "(\<exists>s. dump_loop cfg S init_state = Inr (s, last_ch cfg S, unread cfg S)
            \<and> ix s = int (length (emitted cfg S)))
       \<and> dump_file cfg S =
             Inr ((if emitted cfg S = [] then [] else full_line cfg (Start cfg) (emitted cfg S))
                    @ end_addr cfg (int (length (emitted cfg S))),
                  if last_ch cfg S = EOF then int (length (emitted cfg S))
                  else - int (length (emitted cfg S)),
                  unread cfg S)"
proof -
  let ?E = "emitted cfg S"
  let ?a = "min (Start cfg) (int (length S))"
  from assms(2,5) have r: "?a + int (length ?E) \<le> INT_MAX" "int (length ?E) \<le> INT_MAX"
    by simp_all
  from put_bytes_continuous [OF assms(1,4) r] obtain s where
    all: "put_bytes cfg ?E (init_state\<lparr>adr := ?a\<rparr>) = Inr s
        \<and> ix s = int (length ?E) \<and> cnt s = int (length ?E)
        \<and> flush_line cfg s = Inr (if ?E = [] then [] else full_line cfg ?a ?E)" ..
  from all have p: "put_bytes cfg ?E (init_state\<lparr>adr := ?a\<rparr>) = Inr s"
    by (rule conjunct1)
  from all have i: "ix s = int (length ?E)"
    by (elim conjE)
  from all have c: "cnt s = int (length ?E)"
    by (elim conjE)
  from all have f: "flush_line cfg s = Inr (if ?E = [] then [] else full_line cfg ?a ?E)"
    by (elim conjE)
  have a: "(if ?E = [] then [] else full_line cfg ?a ?E) =
           (if ?E = [] then [] else full_line cfg (Start cfg) ?E)"
  proof (cases "?E = []")
    case True
    then show ?thesis by simp
  next
    case False
    with emitted_start [OF assms(2)] show ?thesis by simp
  qed
  have l: "dump_loop cfg S init_state = Inr (s, last_ch cfg S, unread cfg S)"
    using dump_loop_init [OF assms(2,3), of S] by (simp only: p sum.case)
  have "dump_file cfg S =
          Inr ((if ?E = [] then [] else full_line cfg ?a ?E) @ end_addr cfg (cnt s),
               if last_ch cfg S = EOF then cnt s else - cnt s, unread cfg S)"
    unfolding dump_file_def by (simp only: l f sum.case prod.case)
  then have d: "dump_file cfg S =
             Inr ((if ?E = [] then [] else full_line cfg (Start cfg) ?E)
                    @ end_addr cfg (int (length ?E)),
                  if last_ch cfg S = EOF then int (length ?E) else - int (length ?E),
                  unread cfg S)"
    unfolding a c .
  have A: "\<exists>s. dump_loop cfg S init_state = Inr (s, last_ch cfg S, unread cfg S)
            \<and> ix s = int (length ?E)"
    by (rule exI [of _ s]) (intro conjI, fact l, fact i)
  show ?thesis
    by (intro conjI) (fact A, fact d)
qed

text \<open>
  The dump as a whole, for non-negative options, a line buffer with room for each line
  and counters that stay in the \<open>int\<close> range.
\<close>

lemma dump_file_text:
  assumes "0 \<le> PerLine cfg" "0 \<le> Start cfg" "0 \<le> Count cfg"
    and "asc_room cfg (length (emitted cfg S))"
    and "Start cfg + int (length (emitted cfg S)) \<le> INT_MAX"
  shows "dump_file cfg S =
           Inr (dump_text cfg (Start cfg) (emitted cfg S)
                  @ end_addr cfg (int (length (emitted cfg S))),
                if last_ch cfg S = EOF then int (length (emitted cfg S))
                else - int (length (emitted cfg S)),
                unread cfg S)"
proof (cases "PerLine cfg = 0")
  case True
  with assms(4) have "Ascii cfg \<noteq> 0 \<longrightarrow> length (emitted cfg S) < 64"
    by (auto simp: asc_room_def)
  from dump_file_continuous [OF True assms(2,3) this assms(5)] True show ?thesis
    by (simp add: dump_text_def)
next
  case False
  with assms(1) have N: "PerLine cfg = int (nat (PerLine cfg))" "0 < nat (PerLine cfg)"
    by simp_all
  from False assms(1,4) have "Ascii cfg \<noteq> 0 \<longrightarrow> nat (PerLine cfg) < 64"
    by (auto simp: asc_room_def)
  from dump_file_lines [OF N assms(2,3) this assms(5)] False show ?thesis
    by (simp add: dump_text_def)
qed




subsection \<open>Runs that complete\<close>

text \<open>
  A pass of the loop body that completes has incremented no counter that held
  \<open>INT_MAX\<close>; so after passes that complete the counters are in the \<open>int\<close> range.
\<close>

lemma dump_byte_in_range:
  "dump_byte cfg ch s = Inr s' \<Longrightarrow> ix s < INT_MAX \<and> adr s < INT_MAX \<and> cnt s < INT_MAX"
  by (auto simp: dump_byte_def incr_Inr split: if_splits sum.splits)

lemma put_bytes_in_range:
  "put_bytes cfg bs s = Inr s' \<Longrightarrow> bs \<noteq> [] \<Longrightarrow>
     adr s + int (length bs) \<le> INT_MAX \<and> cnt s + int (length bs) \<le> INT_MAX"
proof (induction bs arbitrary: s)
  case Nil
  then show ?case by simp
next
  case (Cons b bs)
  from Cons.prems(1) obtain s1 where 1: "dump_byte cfg (uint b) s = Inr s1"
    and 2: "put_bytes cfg bs s1 = Inr s'"
    by (auto split: sum.splits)
  note r = dump_byte_in_range [OF 1] and c = dump_byte_counters [OF 1]
  show ?case
  proof (cases "bs = []")
    case True
    with r show ?thesis by simp
  next
    case False
    from Cons.IH [OF 2 False] c show ?thesis by simp
  qed
qed

text \<open>
  What a dump that completes returns and leaves unread, for non-negative options and
  whatever the other options are; the count that it returns is in the \<open>int\<close> range.
\<close>

lemma dump_file_completed:
  assumes "0 \<le> Start cfg" "0 \<le> Count cfg" "dump_file cfg S = Inr (t, r, rest)"
  shows "rest = unread cfg S"
    and "r = (if last_ch cfg S = EOF then int (length (emitted cfg S))
              else - int (length (emitted cfg S)))"
    and "int (length (emitted cfg S)) \<le> INT_MAX"
proof -
  let ?s0 = "init_state\<lparr>adr := min (Start cfg) (int (length S))\<rparr>"
  from assms(3) obtain s ch rest' where l: "dump_loop cfg S init_state = Inr (s, ch, rest')"
    by (auto simp: dump_file_def split: sum.splits)
  with dump_loop_init [OF assms(1,2), of S]
  have p: "put_bytes cfg (emitted cfg S) ?s0 = Inr s"
    and c: "ch = last_ch cfg S" and u: "rest' = unread cfg S"
    by (auto split: sum.splits)
  from put_bytes_counters [OF p] have n: "cnt s = int (length (emitted cfg S))"
    by (simp add: init_state_def)
  from assms(3) l u show "rest = unread cfg S"
    by (auto simp: dump_file_def split: sum.splits)
  from assms(3) l c n show "r = (if last_ch cfg S = EOF then int (length (emitted cfg S))
              else - int (length (emitted cfg S)))"
    by (auto simp: dump_file_def split: sum.splits)
  show "int (length (emitted cfg S)) \<le> INT_MAX"
  proof (cases "emitted cfg S = []")
    case True
    then show ?thesis by (simp add: INT_MAX_def)
  next
    case False
    from put_bytes_in_range [OF p False] show ?thesis
      by (simp add: init_state_def)
  qed
qed

subsection \<open>The byte limit\<close>

text \<open>
  Claim C4, as the code has it. The loop condition calls \<open>fgetc\<close> before it tests the
  limit. So, with a limit \<open>L > 0\<close> and a start offset \<open>Start \<ge> 0\<close>, every dump that
  completes has read the skipped bytes, the \<open>L\<close> dumped bytes and one byte more, when the
  input has one: \<open>min (len S) (Start + L + 1)\<close> bytes; the rest of the input is unread.
  The dump completes when \<open>PerLine \<ge> 0\<close>, the line buffer has room for each line and
  the start offset plus the number of bytes dumped stays in the range of the \<open>int\<close>
  counters.
\<close>

theorem limit_reads_one_byte_ahead:
  assumes "Count cfg = L" "0 < L" "0 \<le> Start cfg"
  shows "(\<forall>t r rest. dump_file cfg S = Inr (t, r, rest) \<longrightarrow>
            rest = drop (nat (Start cfg) + nat L + 1) S
          \<and> consumed cfg S = Some (min (length S) (nat (Start cfg) + nat L + 1)))
       \<and> (0 \<le> PerLine cfg \<and> asc_room cfg (length (emitted cfg S))
            \<and> Start cfg + int (length (emitted cfg S)) \<le> INT_MAX \<longrightarrow>
            (\<exists>t r. dump_file cfg S = Inr (t, r, drop (nat (Start cfg) + nat L + 1) S)))"
proof -
  have s0: "0 \<le> Start cfg" "0 \<le> Count cfg" using assms by simp_all
  have e: "unread cfg S = drop (nat (Start cfg) + nat L + 1) S"
    using assms by (simp add: unread_def add.commute)
  have 1: "rest = drop (nat (Start cfg) + nat L + 1) S
          \<and> consumed cfg S = Some (min (length S) (nat (Start cfg) + nat L + 1))"
    if d: "dump_file cfg S = Inr (t, r, rest)" for t r rest
  proof -
    from dump_file_completed(1) [OF s0 d] e
    have r: "rest = drop (nat (Start cfg) + nat L + 1) S" by simp
    with d have "consumed cfg S = Some (min (length S) (nat (Start cfg) + nat L + 1))"
      by (auto simp: consumed_def)
    with r show ?thesis by (rule conjI)
  qed
  have 2: "\<exists>t r. dump_file cfg S = Inr (t, r, drop (nat (Start cfg) + nat L + 1) S)"
    if h: "0 \<le> PerLine cfg \<and> asc_room cfg (length (emitted cfg S))
            \<and> Start cfg + int (length (emitted cfg S)) \<le> INT_MAX"
  proof -
    from h have p: "0 \<le> PerLine cfg" "asc_room cfg (length (emitted cfg S))"
      "Start cfg + int (length (emitted cfg S)) \<le> INT_MAX"
      by simp_all
    from dump_file_text [OF p(1) s0 p(2,3)] show ?thesis
      unfolding e by (intro exI)
  qed
  have A: "\<forall>t r rest. dump_file cfg S = Inr (t, r, rest) \<longrightarrow>
            rest = drop (nat (Start cfg) + nat L + 1) S
          \<and> consumed cfg S = Some (min (length S) (nat (Start cfg) + nat L + 1))"
    by (intro allI impI) (rule 1)
  have B: "0 \<le> PerLine cfg \<and> asc_room cfg (length (emitted cfg S))
            \<and> Start cfg + int (length (emitted cfg S)) \<le> INT_MAX \<longrightarrow>
            (\<exists>t r. dump_file cfg S = Inr (t, r, drop (nat (Start cfg) + nat L + 1) S))"
    by (rule impI) (rule 2)
  from A B show ?thesis by (rule conjI)
qed

theorem limit_reads_one_byte_ahead_witness:
  "Count (cfg_cont\<lparr>Start := 1, Count := 2\<rparr>) = 2 \<and> (0::int) < 2
   \<and> 0 \<le> Start (cfg_cont\<lparr>Start := 1, Count := 2\<rparr>)
   \<and> 0 \<le> PerLine (cfg_cont\<lparr>Start := 1, Count := 2\<rparr>)
   \<and> asc_room (cfg_cont\<lparr>Start := 1, Count := 2\<rparr>)
        (length (emitted (cfg_cont\<lparr>Start := 1, Count := 2\<rparr>) [1, 2, 3, 4, 5, 6, 7]))
   \<and> Start (cfg_cont\<lparr>Start := 1, Count := 2\<rparr>)
        + int (length (emitted (cfg_cont\<lparr>Start := 1, Count := 2\<rparr>) [1, 2, 3, 4, 5, 6, 7])) \<le> INT_MAX
   \<and> (\<exists>t r. dump_file (cfg_cont\<lparr>Start := 1, Count := 2\<rparr>) [1, 2, 3, 4, 5, 6, 7]
               = Inr (t, r, [5, 6, 7]))
   \<and> consumed (cfg_cont\<lparr>Start := 1, Count := 2\<rparr>) [1, 2, 3, 4, 5, 6, 7] = Some 4"
proof -
  let ?c = "cfg_cont\<lparr>Start := 1, Count := 2\<rparr>"
  let ?S = "[1, 2, 3, 4, 5, 6, 7] :: byte list"
  have h: "Count ?c = 2" "(0::int) < 2" "0 \<le> Start ?c"
    by (simp_all add: cfg_cont_def default_config_def)
  have p: "0 \<le> PerLine ?c" "asc_room ?c (length (emitted ?c ?S))"
    "Start ?c + int (length (emitted ?c ?S)) \<le> INT_MAX"
    by (simp_all add: cfg_cont_def default_config_def asc_room_def emitted_def INT_MAX_def)
  note t = limit_reads_one_byte_ahead [OF h, of ?S]
  from t p have "\<exists>t r. dump_file ?c ?S = Inr (t, r, drop (nat (Start ?c) + nat 2 + 1) ?S)"
    by blast
  then obtain u r where d: "dump_file ?c ?S = Inr (u, r, drop (nat (Start ?c) + nat 2 + 1) ?S)"
    by blast
  from t d have "consumed ?c ?S = Some (min (length ?S) (nat (Start ?c) + nat 2 + 1))"
    by blast
  then have c: "consumed ?c ?S = Some 4"
    by (simp add: cfg_cont_def default_config_def)
  from d have "dump_file ?c ?S = Inr (u, r, [5, 6, 7])"
    by (simp add: cfg_cont_def default_config_def)
  then have e: "\<exists>t r. dump_file ?c ?S = Inr (t, r, [5, 6, 7])"
    by (intro exI)
  show ?thesis
    by (intro conjI) (fact h(1), fact h(2), fact h(3), fact p(1), fact p(2), fact p(3), fact e, fact c)
qed

text \<open>
  Claim C4 as stated fails: with a limit of 3 and no start offset, four of the five
  input bytes are read, not three.
\<close>

theorem limit_consumption_counterexample:
  "consumed (default_config\<lparr>Count := 3\<rparr>) [1, 2, 3, 4, 5] = Some 4
   \<and> nat (Start (default_config\<lparr>Count := 3\<rparr>)) + nat (Count (default_config\<lparr>Count := 3\<rparr>)) = 3"
  by code_simp

text \<open>
  With a limit \<open>L > 0\<close> smaller than the number of bytes after the start offset, a dump
  that completes returns \<open>- L\<close>, which \<open>main\<close> reports as \<open>L\<close> bytes and a dump stopped by
  the limit; and the dump completes, with the lines of exactly the \<open>L\<close> bytes after the
  skipped ones, when the line buffer has room for each line and the counters stay in range.
\<close>

lemma byte_limit_within_buffer:
  assumes "Count cfg = L" "0 < L" "0 \<le> Start cfg" "L < int (length S) - Start cfg"
  shows "(\<forall>t r rest. dump_file cfg S = Inr (t, r, rest) \<longrightarrow>
            r = - L \<and> bytesEmitted r = L \<and> truncated r)
       \<and> (0 \<le> PerLine cfg \<and> asc_room cfg (nat L) \<and> Start cfg + L \<le> INT_MAX \<longrightarrow>
            dump_file cfg S =
              Inr (dump_text cfg (Start cfg) (take (nat L) (drop (nat (Start cfg)) S))
                     @ end_addr cfg L,
                   - L, drop (Suc (nat L)) (drop (nat (Start cfg)) S)))"
proof -
  have s0: "0 \<le> Start cfg" "0 \<le> Count cfg" using assms by simp_all
  from assms have lt: "nat L < length (drop (nat (Start cfg)) S)" by auto
  have e: "emitted cfg S = take (nat L) (drop (nat (Start cfg)) S)"
    "unread cfg S = drop (Suc (nat L)) (drop (nat (Start cfg)) S)"
    using assms by (simp_all add: emitted_def unread_def)
  from lt assms(1,2) have ne: "last_ch cfg S \<noteq> EOF"
    by (simp add: last_ch_EOF)
  from lt assms(2) have n: "int (length (emitted cfg S)) = L" "length (emitted cfg S) = nat L"
    unfolding e by simp_all
  have 1: "r = - L \<and> bytesEmitted r = L \<and> truncated r"
    if d: "dump_file cfg S = Inr (t, r, rest)" for t r rest
    using dump_file_completed(2) [OF s0 d] ne n assms(2)
    by (simp add: bytesEmitted_def truncated_def)
  have 2: "dump_file cfg S =
              Inr (dump_text cfg (Start cfg) (take (nat L) (drop (nat (Start cfg)) S))
                     @ end_addr cfg L,
                   - L, drop (Suc (nat L)) (drop (nat (Start cfg)) S))"
    if h: "0 \<le> PerLine cfg \<and> asc_room cfg (nat L) \<and> Start cfg + L \<le> INT_MAX"
  proof -
    from h n have p: "0 \<le> PerLine cfg" "asc_room cfg (length (emitted cfg S))"
      "Start cfg + int (length (emitted cfg S)) \<le> INT_MAX"
      by simp_all
    from dump_file_text [OF p(1) s0 p(2,3)] ne show ?thesis
      unfolding n(1) unfolding e by simp
  qed
  have A: "\<forall>t r rest. dump_file cfg S = Inr (t, r, rest) \<longrightarrow>
            r = - L \<and> bytesEmitted r = L \<and> truncated r"
    by (intro allI impI) (rule 1)
  have B: "0 \<le> PerLine cfg \<and> asc_room cfg (nat L) \<and> Start cfg + L \<le> INT_MAX \<longrightarrow>
            dump_file cfg S =
              Inr (dump_text cfg (Start cfg) (take (nat L) (drop (nat (Start cfg)) S))
                     @ end_addr cfg L,
                   - L, drop (Suc (nat L)) (drop (nat (Start cfg)) S))"
    by (rule impI) (rule 2)
  from A B show ?thesis by (rule conjI)
qed

text \<open>
  Claim C3 fails on the code where the line buffer has no room. After the options
  \<open>-p +a\<close> (no line wrap, ASCII shown) and a limit of 65 bytes, on an input of 70 bytes
  the claim has 65 bytes dumped and the dump reported as stopped by the limit; the code
  stores the character of the 65th byte at \<open>asc[64]\<close>, outside \<open>char asc[64]\<close>, and the run
  has no result. With a limit of 63 bytes the run completes and returns \<open>- 63\<close>.
\<close>

theorem byte_limit_buffer_overrun:
  "dump_file (cfg_cont\<lparr>Count := 65\<rparr>) (replicate 70 0x41) = Inl AscOverrun
   \<and> dump_file (cfg_cont\<lparr>Count := 63\<rparr>) (replicate 70 0x41)
       = Inr (concat (replicate 63 ''41 '') @ '' |'' @ replicate 63 CHR ''A'' @ ''|'' @ [NL],
              - 63, replicate 6 0x41)"
  by code_simp

subsection \<open>The start offset\<close>

text \<open>
  Claim C5, as the code has it. With \<open>Start = k \<ge> 0\<close> and no byte limit, every dump that
  completes has read all of the input \<open>S\<close> and returns \<open>max 0 (len S - k)\<close>, a value of
  the \<open>int\<close> range, which \<open>main\<close> reports as that many bytes and as end of file. The dump completes, and its output is the
  lines of exactly the bytes of \<open>S\<close> after the first \<open>k\<close>, then the trailing address line
  if that option is set, when \<open>PerLine \<ge> 0\<close>, the line buffer has room for each line and
  \<open>S\<close> is no longer than \<open>INT_MAX\<close>. When \<open>k\<close> is at or beyond the length of \<open>S\<close>, for
  every configuration the loop only skips and ends with no byte placed and nothing
  written, the flush of the line adds nothing and the result is 0; the output is then
  empty unless \<open>EndAddr\<close> is set, and exactly the address line \<open>00000000\<close> if it is.
\<close>

theorem start_offset_emitted_count:
  assumes "Start cfg = k" "Count cfg = 0" "0 \<le> k"
  shows "(\<forall>t r rest. dump_file cfg S = Inr (t, r, rest) \<longrightarrow>
            r = max 0 (int (length S) - k) \<and> r \<le> INT_MAX \<and> rest = []
          \<and> bytesEmitted r = max 0 (int (length S) - k) \<and> \<not> truncated r)
       \<and> (0 \<le> PerLine cfg \<and> asc_room cfg (length (drop (nat k) S))
            \<and> int (length S) \<le> INT_MAX \<longrightarrow>
            dump_file cfg S =
              Inr (dump_text cfg k (drop (nat k) S) @ end_addr cfg (max 0 (int (length S) - k)),
                   max 0 (int (length S) - k), []))
       \<and> (int (length S) \<le> k \<longrightarrow>
            dump_loop cfg S init_state = Inr (init_state\<lparr>adr := int (length S)\<rparr>, EOF, [])
          \<and> flush_line cfg (init_state\<lparr>adr := int (length S)\<rparr>) = Inr []
          \<and> dump_file cfg S = Inr (if EndAddr cfg \<noteq> 0 then ''00000000'' @ [NL] else [], 0, []))"
proof -
  have s0: "0 \<le> Start cfg" "0 \<le> Count cfg" using assms by simp_all
  have e: "emitted cfg S = drop (nat k) S" "last_ch cfg S = EOF" "unread cfg S = []"
    using assms by (simp_all add: emitted_def last_ch_def unread_def)
  have n: "int (length (drop (nat k) S)) = max 0 (int (length S) - k)"
    using assms(3) by auto
  have 1: "r = max 0 (int (length S) - k) \<and> r \<le> INT_MAX \<and> rest = []
          \<and> bytesEmitted r = max 0 (int (length S) - k) \<and> \<not> truncated r"
    if d: "dump_file cfg S = Inr (t, r, rest)" for t r rest
    using dump_file_completed [OF s0 d]
    unfolding e n by (simp add: bytesEmitted_def truncated_def)
  have 3: "dump_loop cfg S init_state = Inr (init_state\<lparr>adr := int (length S)\<rparr>, EOF, [])
          \<and> flush_line cfg (init_state\<lparr>adr := int (length S)\<rparr>) = Inr []
          \<and> dump_file cfg S = Inr (if EndAddr cfg \<noteq> 0 then ''00000000'' @ [NL] else [], 0, [])"
    if le: "int (length S) \<le> k"
  proof -
    from le assms(1,3) have d: "drop (nat k) S = []" "min (Start cfg) (int (length S)) = int (length S)"
      by auto
    from dump_loop_init [OF s0, of S]
    have l: "dump_loop cfg S init_state = Inr (init_state\<lparr>adr := int (length S)\<rparr>, EOF, [])"
      unfolding e d by simp
    have f: "flush_line cfg (init_state\<lparr>adr := int (length S)\<rparr>) = Inr []"
      by (simp add: flush_line_def init_state_def)
    from l f have "dump_file cfg S = Inr (end_addr cfg 0, 0, [])"
      by (simp add: dump_file_def init_state_def)
    then have "dump_file cfg S = Inr (if EndAddr cfg \<noteq> 0 then ''00000000'' @ [NL] else [], 0, [])"
      by (simp only: end_addr_zero)
    with l f show ?thesis by (intro conjI)
  qed
  have 2: "dump_file cfg S =
              Inr (dump_text cfg k (drop (nat k) S) @ end_addr cfg (max 0 (int (length S) - k)),
                   max 0 (int (length S) - k), [])"
    if h: "0 \<le> PerLine cfg \<and> asc_room cfg (length (drop (nat k) S)) \<and> int (length S) \<le> INT_MAX"
  proof (cases "int (length S) \<le> k")
    case True
    with assms(3) have d: "drop (nat k) S = []" "max 0 (int (length S) - k) = 0"
      by auto
    from 3 [OF True] have "dump_file cfg S = Inr (if EndAddr cfg \<noteq> 0 then ''00000000'' @ [NL] else [], 0, [])"
      by (elim conjE)
    then show ?thesis
      unfolding d by (simp add: dump_text_def end_addr_zero)
  next
    case False
    with assms(3) have "k + int (length (drop (nat k) S)) = int (length S)"
      by auto
    with h assms(1) have p: "0 \<le> PerLine cfg" "asc_room cfg (length (emitted cfg S))"
      "Start cfg + int (length (emitted cfg S)) \<le> INT_MAX"
      unfolding e by simp_all
    from dump_file_text [OF p(1) s0 p(2,3)] assms(1) show ?thesis
      unfolding e n by simp
  qed
  have A: "\<forall>t r rest. dump_file cfg S = Inr (t, r, rest) \<longrightarrow>
            r = max 0 (int (length S) - k) \<and> r \<le> INT_MAX \<and> rest = []
          \<and> bytesEmitted r = max 0 (int (length S) - k) \<and> \<not> truncated r"
    by (intro allI impI) (rule 1)
  have B: "0 \<le> PerLine cfg \<and> asc_room cfg (length (drop (nat k) S))
            \<and> int (length S) \<le> INT_MAX \<longrightarrow>
            dump_file cfg S =
              Inr (dump_text cfg k (drop (nat k) S) @ end_addr cfg (max 0 (int (length S) - k)),
                   max 0 (int (length S) - k), [])"
    by (rule impI) (rule 2)
  have C: "int (length S) \<le> k \<longrightarrow>
            dump_loop cfg S init_state = Inr (init_state\<lparr>adr := int (length S)\<rparr>, EOF, [])
          \<and> flush_line cfg (init_state\<lparr>adr := int (length S)\<rparr>) = Inr []
          \<and> dump_file cfg S = Inr (if EndAddr cfg \<noteq> 0 then ''00000000'' @ [NL] else [], 0, [])"
    by (rule impI) (rule 3)
  from A B C show ?thesis by (intro conjI)
qed

theorem start_offset_emitted_count_witness:
  "Start (default_config\<lparr>PerLine := 4, Start := 2\<rparr>) = 2
   \<and> Count (default_config\<lparr>PerLine := 4, Start := 2\<rparr>) = 0 \<and> (0::int) \<le> 2
   \<and> 0 \<le> PerLine (default_config\<lparr>PerLine := 4, Start := 2\<rparr>)
   \<and> asc_room (default_config\<lparr>PerLine := 4, Start := 2\<rparr>)
        (length (drop (nat 2) [0x41, 0x42, 0x43, 0x44, 0x45 :: byte]))
   \<and> int (length [0x41, 0x42, 0x43, 0x44, 0x45 :: byte]) \<le> INT_MAX
   \<and> dump_file (default_config\<lparr>PerLine := 4, Start := 2\<rparr>) [0x41, 0x42, 0x43, 0x44, 0x45]
       = Inr (''00000002  43 44 45     |CDE |'' @ [NL], 3, [])
   \<and> Start (cfg_hexdump\<lparr>Start := 7\<rparr>) = 7 \<and> Count (cfg_hexdump\<lparr>Start := 7\<rparr>) = 0
   \<and> (0::int) \<le> 7 \<and> int (length [0x41, 0x42, 0x43, 0x44, 0x45 :: byte]) \<le> 7
   \<and> dump_file (cfg_hexdump\<lparr>Start := 7\<rparr>) [0x41, 0x42, 0x43, 0x44, 0x45]
       = Inr (''00000000'' @ [NL], 0, [])"
proof -
  let ?c = "default_config\<lparr>PerLine := 4, Start := 2\<rparr>"
  let ?x = "cfg_hexdump\<lparr>Start := 7\<rparr>"
  let ?S = "[0x41, 0x42, 0x43, 0x44, 0x45] :: byte list"
  have h: "Start ?c = 2" "Count ?c = 0" "(0::int) \<le> 2"
    by (simp_all add: default_config_def)
  have p: "0 \<le> PerLine ?c" "asc_room ?c (length (drop (nat 2) ?S))" "int (length ?S) \<le> INT_MAX"
    by (simp_all add: default_config_def asc_room_def INT_MAX_def)
  have g: "Start ?x = 7" "Count ?x = 0" "(0::int) \<le> 7"
    by (simp_all add: cfg_hexdump_def default_config_def)
  have l: "int (length ?S) \<le> 7" by simp
  have e: "Inr (dump_text ?c 2 (drop (nat 2) ?S) @ end_addr ?c (max 0 (int (length ?S) - 2)),
                max 0 (int (length ?S) - 2), [])
           = (Inr (''00000002  43 44 45     |CDE |'' @ [NL], 3, [])
               :: fault + string \<times> int \<times> byte list)"
    by code_simp
  from start_offset_emitted_count [OF h, of ?S]
  have "0 \<le> PerLine ?c \<and> asc_room ?c (length (drop (nat 2) ?S)) \<and> int (length ?S) \<le> INT_MAX \<longrightarrow>
          dump_file ?c ?S =
            Inr (dump_text ?c 2 (drop (nat 2) ?S) @ end_addr ?c (max 0 (int (length ?S) - 2)),
                 max 0 (int (length ?S) - 2), [])"
    by (elim conjE)
  then have "dump_file ?c ?S =
            Inr (dump_text ?c 2 (drop (nat 2) ?S) @ end_addr ?c (max 0 (int (length ?S) - 2)),
                 max 0 (int (length ?S) - 2), [])"
    by (rule mp) (intro conjI, fact p(1), fact p(2), fact p(3))
  then have 1: "dump_file ?c ?S = Inr (''00000002  43 44 45     |CDE |'' @ [NL], 3, [])"
    unfolding e .
  from start_offset_emitted_count [OF g, of ?S]
  have "int (length ?S) \<le> 7 \<longrightarrow>
            dump_loop ?x ?S init_state = Inr (init_state\<lparr>adr := int (length ?S)\<rparr>, EOF, [])
          \<and> flush_line ?x (init_state\<lparr>adr := int (length ?S)\<rparr>) = Inr []
          \<and> dump_file ?x ?S = Inr (if EndAddr ?x \<noteq> 0 then ''00000000'' @ [NL] else [], 0, [])"
    by (elim conjE)
  with l have "dump_file ?x ?S = Inr (if EndAddr ?x \<noteq> 0 then ''00000000'' @ [NL] else [], 0, [])"
    by simp
  then have 2: "dump_file ?x ?S = Inr (''00000000'' @ [NL], 0, [])"
    by (simp add: cfg_hexdump_def default_config_def)
  show ?thesis
    by (intro conjI) (fact h(1), fact h(2), fact h(3), fact p(1), fact p(2), fact p(3), fact 1,
        fact g(1), fact g(2), fact g(3), fact l, fact 2)
qed

text \<open>
  Claim C5 as stated fails when \<open>EndAddr\<close> is set, as after the option \<open>-X\<close>: with a
  start offset of 7 on an input of 5 bytes no byte is dumped, and yet the end-of-file
  processing writes a line, the trailing address.
\<close>

theorem start_offset_flush_counterexample:
  "int (length [0x41, 0x42, 0x43, 0x44, 0x45 :: byte]) \<le> Start (cfg_hexdump\<lparr>Start := 7\<rparr>)
   \<and> dump_file (cfg_hexdump\<lparr>Start := 7\<rparr>) [0x41, 0x42, 0x43, 0x44, 0x45]
       = Inr (''00000000'' @ [NL], 0, [])
   \<and> ''00000000'' @ [NL] \<noteq> []"
  by code_simp

subsection \<open>Continuous mode\<close>

text \<open>
  Claim C7 fails on the code. After the options \<open>-p +a\<close> the line never wraps and ASCII
  is shown, and the line buffer is the fixed \<open>char asc[64]\<close>: it does not grow. The
  character of the 65th byte is stored at \<open>asc[64]\<close>, outside the buffer; with exactly 64
  bytes the buffer holds no NUL when the flush prints it with \<open>%s\<close>. Either run has no
  result; with 63 bytes the dump completes with one line and one line terminator.
\<close>

theorem continuous_ascii_overrun:
  "dump_file cfg_cont (replicate 65 0x41) = Inl AscOverrun
   \<and> dump_file cfg_cont (replicate 64 0x41) = Inl AscUnterminated
   \<and> dump_file cfg_cont (replicate 63 0x41)
       = Inr (concat (replicate 63 ''41 '') @ '' |'' @ replicate 63 CHR ''A'' @ ''|'' @ [NL],
              63, [])"
  by code_simp

subsection \<open>Reading a dump back\<close>

lemma hexval_digits:
  "map hexval ''0123456789abcdef'' = map Some [0..<16]"
  "map hexval ''0123456789ABCDEF'' = map Some [0..<16]"
  by code_simp+

lemma hexval_hexdigit: "hexval (hexdigit lo d) = Some (d mod 16)"
proof -
  let ?xs = "if lo then ''0123456789abcdef'' else ''0123456789ABCDEF''"
  have l: "length ?xs = 16" by simp
  have m: "map hexval ?xs = map Some [0..<16]"
    using hexval_digits by simp
  have i: "d mod 16 < length ?xs" unfolding l by simp
  have "hexval (?xs ! (d mod 16)) = map hexval ?xs ! (d mod 16)"
    using i by (rule nth_map [symmetric])
  also have "\<dots> = map Some [0..<16] ! (d mod 16)"
    unfolding m ..
  also have "\<dots> = Some (d mod 16)"
    by (simp del: upt_Suc)
  finally show ?thesis
    unfolding hexdigit_def .
qed

lemma lines_of_line:
  "NL \<notin> set l \<Longrightarrow> lines_of (l @ NL # rest) = l # lines_of rest"
  by (induction l) auto

lemma hex_bytes_pair:
  "hex_bytes (hexn lo 2 v @ cs) = word_of_nat (16 * (v div 16 mod 16) + v mod 16) # hex_bytes cs"
  by (simp add: numeral_2_eq_2 hexval_hexdigit)

lemma printf_hex_byte: "printf_hex lo 2 (uint (b::byte)) = hexn lo 2 (unat b)"
proof -
  have "uint b < 2 ^ LENGTH(8)" by (rule uint_lt2p)
  then have "uint b < 16 ^ 2" by simp
  then show ?thesis
    by (simp add: printf_hex_fits)
qed

lemma byte_of_nibbles:
  "(word_of_nat (16 * (unat (b::byte) div 16 mod 16) + unat b mod 16) :: byte) = b"
proof -
  have "unat b < 2 ^ LENGTH(8)" by (rule unsigned_less)
  then have "unat b div 16 < 16" by simp
  then have "16 * (unat b div 16 mod 16) + unat b mod 16 = unat b" by simp
  then show ?thesis by simp
qed

lemma filter_blank_columns:
  "set cs \<subseteq> {SP} \<Longrightarrow> filter (\<lambda>c. c \<noteq> SP) cs = []"
  by (induction cs) auto

lemma group_sep_blank: "set (group_sep cfg i) \<subseteq> {SP}"
  by (auto simp: group_sep_def)

lemma blank_cells_blank: "set (blank_cells cfg i m) \<subseteq> {SP}"
proof (induction m arbitrary: i)
  case 0
  show ?case by simp
next
  case (Suc m)
  from group_sep_blank [of cfg "i + 1"] Suc [of "i + 1"]
  show ?case by (cases "HexDump cfg = 0") simp_all
qed

lemma gutter_sp_blank: "set (gutter_sp cfg) \<subseteq> {SP}"
  using gutter_sp_cases [of cfg] by auto

lemma filter_hexn: "filter (\<lambda>c. c \<noteq> SP) (hexn lo k v) = hexn lo k v"
proof -
  have "\<forall>c \<in> set (hexn lo k v). c \<noteq> SP"
    using set_hexn [of lo k v] by auto
  then show ?thesis by (simp add: filter_id_conv)
qed

lemma hex_pair_byte:
  "HexDump cfg \<noteq> 0 \<Longrightarrow> hex_pair cfg (uint (b::byte)) = hexn (LoCase cfg \<noteq> 0) 2 (unat b)"
  unfolding hex_pair_def printf_hex_byte by simp

lemma hex_bytes_cells:
  assumes "HexDump cfg \<noteq> 0"
  shows "hex_bytes (filter (\<lambda>c. c \<noteq> SP) (hex_cells cfg i bs)) = bs"
proof (induction bs arbitrary: i)
  case Nil
  show ?case by simp
next
  case (Cons b bs)
  have "filter (\<lambda>c. c \<noteq> SP) (hex_cells cfg i (b # bs)) =
          hexn (LoCase cfg \<noteq> 0) 2 (unat b) @ filter (\<lambda>c. c \<noteq> SP) (hex_cells cfg (i + 1) bs)"
    by (simp add: hex_pair_byte [OF assms] filter_hexn filter_blank_columns [OF group_sep_blank])
  then show ?case
    by (simp only: hex_bytes_pair byte_of_nibbles Cons.IH)
qed

lemma line_bytes_columns:
  assumes "length ad = 10" "set cols \<subseteq> column_chars"
  shows "line_bytes (ad @ cols @ CHR ''|'' # g) = hex_bytes (filter (\<lambda>c. c \<noteq> SP) cols)"
proof -
  from assms(2) have "x \<noteq> CHR ''|''" if "x \<in> set cols" for x
    using that by auto
  then have "takeWhile (\<lambda>c. c \<noteq> CHR ''|'') (cols @ CHR ''|'' # g) =
               cols @ takeWhile (\<lambda>c. c \<noteq> CHR ''|'') (CHR ''|'' # g)"
    by (rule takeWhile_append2)
  with assms(1) show ?thesis
    by (simp add: line_bytes_def)
qed

lemma length_fmt_addr_long: "AddrNum cfg = 2 \<Longrightarrow> length (fmt_addr cfg a) = 10"
proof -
  assume a: "AddrNum cfg = 2"
  have "nat (a mod 2 ^ 32) < 2 ^ 32" by simp
  then have "nat (a mod 2 ^ 32) < 16 ^ 8" by simp
  then have "ndigits (nat (a mod 2 ^ 32)) \<le> 8" by (intro ndigits_le) simp
  then have "length (printf_hex (LoCase cfg \<noteq> 0) 8 a) = 8"
    by (simp add: printf_hex_def max_absorb1)
  with a show ?thesis by (simp add: fmt_addr_def)
qed

lemma undump_Nil [simp]: "undump [] = []"
  by (simp add: undump_def)

lemma undump_line:
  "NL \<notin> set l \<Longrightarrow> undump (l @ NL # rest) = line_bytes l @ undump rest"
  by (simp add: undump_def lines_of_line)

lemma NL_notin_columns: "set cs \<subseteq> column_chars \<Longrightarrow> NL \<notin> set cs"
  by auto

lemma undump_full_line:
  assumes "AddrNum cfg = 2" "HexDump cfg \<noteq> 0" "Ascii cfg \<noteq> 0"
  shows "undump (full_line cfg a bs @ rest) = bs @ undump rest"
proof -
  let ?ad = "fmt_addr cfg a" and ?cols = "hex_cells cfg 0 bs @ gutter_sp cfg"
  let ?g = "asc_text bs @ ''|''"
  let ?l = "?ad @ ?cols @ CHR ''|'' # ?g"
  have c: "set ?cols \<subseteq> column_chars"
    using hex_cells_column_chars [of cfg 0 bs] gutter_sp_column_chars [of cfg] by simp
  have n: "NL \<notin> set ?l"
    using NL_notin_columns [OF fmt_addr_column_chars [of cfg a]] NL_notin_columns [OF c]
    by simp
  have f: "full_line cfg a bs @ rest = ?l @ NL # rest"
    using assms by (simp add: full_line_def addr_col_def)
  have "line_bytes ?l = hex_bytes (filter (\<lambda>c. c \<noteq> SP) ?cols)"
    by (rule line_bytes_columns [OF length_fmt_addr_long [OF assms(1)] c])
  also have "\<dots> = bs"
    by (simp add: filter_blank_columns [OF gutter_sp_blank] hex_bytes_cells [OF assms(2)])
  finally have "line_bytes ?l = bs" .
  with undump_line [OF n, of rest] show ?thesis
    unfolding f by simp
qed

lemma undump_part_line:
  assumes "AddrNum cfg = 2" "HexDump cfg \<noteq> 0" "Ascii cfg \<noteq> 0"
  shows "undump (part_line cfg a bs) = bs"
proof -
  let ?m = "nat (PerLine cfg) - length bs"
  let ?ad = "fmt_addr cfg a"
  let ?cols = "hex_cells cfg 0 bs @ blank_cells cfg (int (length bs)) ?m @ gutter_sp cfg"
  let ?g = "asc_text bs @ (if AscWide cfg \<noteq> 0 then replicate ?m SP else []) @ ''|''"
  let ?l = "?ad @ ?cols @ CHR ''|'' # ?g"
  have c: "set ?cols \<subseteq> column_chars"
    using hex_cells_column_chars [of cfg 0 bs] gutter_sp_column_chars [of cfg]
      blank_cells_column_chars [of cfg "int (length bs)" ?m]
    by simp
  have n: "NL \<notin> set ?l"
    using NL_notin_columns [OF fmt_addr_column_chars [of cfg a]] NL_notin_columns [OF c]
    by simp
  have f: "part_line cfg a bs = ?l @ NL # []"
    using assms by (simp add: part_line_def addr_col_def)
  have "line_bytes ?l = hex_bytes (filter (\<lambda>c. c \<noteq> SP) ?cols)"
    by (rule line_bytes_columns [OF length_fmt_addr_long [OF assms(1)] c])
  also have "\<dots> = bs"
    by (simp add: filter_blank_columns [OF gutter_sp_blank]
        filter_blank_columns [OF blank_cells_blank] hex_bytes_cells [OF assms(2)])
  finally have "line_bytes ?l = bs" .
  with undump_line [OF n, of "[]"] show ?thesis
    unfolding f by simp
qed

lemma undump_full_lines:
  assumes "AddrNum cfg = 2" "HexDump cfg \<noteq> 0" "Ascii cfg \<noteq> 0"
  shows "undump (concat (map (\<lambda>j. full_line cfg (A j) (B j)) js) @ rest) =
           concat (map B js) @ undump rest"
proof (induction js)
  case Nil
  show ?case by simp
next
  case (Cons j js)
  have "undump (concat (map (\<lambda>j. full_line cfg (A j) (B j)) (j # js)) @ rest) =
          undump (full_line cfg (A j) (B j) @ (concat (map (\<lambda>j. full_line cfg (A j) (B j)) js) @ rest))"
    by simp
  also have "\<dots> = B j @ undump (concat (map (\<lambda>j. full_line cfg (A j) (B j)) js) @ rest)"
    by (rule undump_full_line [OF assms])
  finally show ?case
    by (simp add: Cons.IH)
qed

lemma concat_chunks:
  "concat (map (\<lambda>j. take N (drop (j * N) E)) [0..<q]) = take (q * N) E"
proof (induction q)
  case 0
  show ?case by simp
next
  case (Suc q)
  have "take (Suc q * N) E = take (q * N + N) E" by (simp add: add.commute)
  also have "\<dots> = take (q * N) E @ take N (drop (q * N) E)" by (rule take_add)
  finally show ?case by (simp add: Suc)
qed

lemma undump_dump_lines:
  assumes "AddrNum cfg = 2" "HexDump cfg \<noteq> 0" "Ascii cfg \<noteq> 0"
  shows "undump (dump_lines cfg N a E) = E"
proof -
  let ?q = "length E div N"
  let ?rest = "if length E mod N = 0 then []
               else part_line cfg (a + int (?q * N)) (drop (?q * N) E)"
  have r: "undump ?rest = (if length E mod N = 0 then [] else drop (?q * N) E)"
    by (simp add: undump_part_line [OF assms])
  have "undump (dump_lines cfg N a E) =
          concat (map (\<lambda>j. take N (drop (j * N) E)) [0..<?q]) @ undump ?rest"
    unfolding dump_lines_def by (rule undump_full_lines [OF assms])
  also have "\<dots> = take (?q * N) E @ (if length E mod N = 0 then [] else drop (?q * N) E)"
    unfolding r concat_chunks ..
  also have "\<dots> = E"
  proof (cases "length E mod N = 0")
    case True
    then have "?q * N = length E" by auto
    with True show ?thesis by simp
  next
    case False
    then show ?thesis by simp
  qed
  finally show ?thesis .
qed

text \<open>
  Claim C1. With the default configuration the dump of a byte sequence \<open>S\<close> whose length
  is in the range of the \<open>int\<close> counters completes, reads all of \<open>S\<close> and returns its
  length. Its output is the lines of \<open>S\<close>, 16 bytes to a line from address 0 on; and
  reading back the hex digits of that text, the address column and the gutter set aside,
  gives \<open>S\<close> again.
\<close>

theorem dump_round_trip:
  assumes "int (length S) \<le> INT_MAX"
  shows "dump_file default_config S = Inr (dump_lines default_config 16 0 S, int (length S), [])
       \<and> undump (dump_lines default_config 16 0 S) = S"
proof -
  have h: "PerLine default_config = int 16" "(0::nat) < 16" "0 \<le> Start default_config"
    "0 \<le> Count default_config" "Ascii default_config \<noteq> 0 \<longrightarrow> (16::nat) < 64"
    by (simp_all add: default_config_def)
  have c: "AddrNum default_config = 2" "HexDump default_config \<noteq> 0" "Ascii default_config \<noteq> 0"
    by (simp_all add: default_config_def)
  have e: "emitted default_config S = S" "last_ch default_config S = EOF"
    "unread default_config S = []" "Start default_config = 0"
    "end_addr default_config (int (length S)) = []"
    by (simp_all add: emitted_def last_ch_def unread_def end_addr_def default_config_def)
  from assms have r: "Start default_config + int (length (emitted default_config S)) \<le> INT_MAX"
    unfolding e by simp
  from dump_file_lines [OF h r]
  have "dump_file default_config S =
          Inr (dump_lines default_config 16 (Start default_config) (emitted default_config S)
                 @ end_addr default_config (int (length (emitted default_config S))),
               if last_ch default_config S = EOF then int (length (emitted default_config S))
               else - int (length (emitted default_config S)),
               unread default_config S)"
    by (rule conjunct2)
  then have d: "dump_file default_config S = Inr (dump_lines default_config 16 0 S, int (length S), [])"
    unfolding e by simp
  have u: "undump (dump_lines default_config 16 0 S) = S"
    by (rule undump_dump_lines [OF c])
  from d u show ?thesis by (rule conjI)
qed

theorem dump_round_trip_witness:
  "int (length sample) \<le> INT_MAX
   \<and> dump_file default_config sample =
       Inr (''00000000  65 78 61 6D 70 6C 65 20 70 69 70 65 20 63 6F 6E  |example pipe con|'' @ [NL]
            @ ''00000010  74                                               |t               |'' @ [NL],
            17, [])
   \<and> undump (''00000000  65 78 61 6D 70 6C 65 20 70 69 70 65 20 63 6F 6E  |example pipe con|'' @ [NL]
            @ ''00000010  74                                               |t               |'' @ [NL])
       = sample"
proof -
  let ?t = "''00000000  65 78 61 6D 70 6C 65 20 70 69 70 65 20 63 6F 6E  |example pipe con|'' @ [NL]
            @ ''00000010  74                                               |t               |'' @ [NL]"
  have h: "int (length sample) \<le> INT_MAX"
    by (simp add: sample_def INT_MAX_def)
  have e: "dump_lines default_config 16 0 sample = ?t"
    by code_simp
  have l: "int (length sample) = 17"
    by (simp add: sample_def)
  note t = dump_round_trip [OF h, unfolded e l]
  from t have 1: "dump_file default_config sample = Inr (?t, 17, [])"
    by (rule conjunct1)
  from t have 2: "undump ?t = sample"
    by (rule conjunct2)
  show ?thesis
    by (intro conjI) (fact h, fact 1, fact 2)
qed

end
